theory Spec2Isabelle
  imports Complex_Main "HOL-Library.Word" "HOL-Library.Signed_Division"
begin

unbundle bit_operations_syntax

section \<open>Data model\<close>

text \<open>
  The C program runs on ARMv8-A (LP64): \<open>uint8_t\<close> is an 8-bit word, \<open>unsigned int\<close> a
  32-bit word, \<open>size_t\<close> and \<open>uint64_t\<close> 64-bit words. Values of C type \<open>int\<close> (loop
  counters, scores, the indices \<open>j\<close> and \<open>k\<close>) are modelled as mathematical integers;
  where the source applies bit operations or a conversion to an unsigned type to them, the
  conversion to a word is written out. A score grows by at most one in a round, so it
  never exceeds the number of rounds, which is at most \<open>tries\<close>, an \<open>int\<close>: the
  increments of the source do not overflow, and neither does \<open>2 * results[k]\<close> while
  \<open>tries\<close> is below \<open>2 ^ 30\<close>.
\<close>

type_synonym u8 = "8 word"
type_synonym u32 = "32 word"
type_synonym u64 = "64 word"

text \<open>\<open>struct arguments\<close> of util.h, with the defaults of \<open>arg_init\<close>.\<close>

record arguments =
  quiet :: int
  verbose :: int
  meta :: int
  tries :: int
  loops :: int
  cache_threshold :: int

definition arg_init :: arguments where
  "arg_init = \<lparr>quiet = 0, verbose = 0, meta = 1, tries = 999, loops = 30, cache_threshold = 0\<rparr>"

text \<open>Constants and initialised globals of spectre\_pht\_sa\_ip.h and spectre\_pht\_sa\_ip.c.
  Nothing in the program assigns \<open>array1\<close> or \<open>array1_size\<close> after their initialisation.\<close>

definition PAGESIZE :: nat where
  "PAGESIZE = 256"

definition array1 :: "u8 list" where
  "array1 = [1, 2, 3, 4, 5, 6, 7, 8, 9, 10, 11, 12, 13, 14, 15, 16] @ replicate 144 0"

definition array1_size :: u32 where
  "array1_size = 16"

section \<open>The bounds check of the victim: single-precision arithmetic\<close>

text \<open>
  The guard \<open>(float) x / (float) array1_size < 1\<close> converts two unsigned integers to IEEE 754
  binary32, divides them and compares the quotient with 1. Only non-negative values occur,
  so a binary32 datum is a non-negative rational, plus infinity, or a NaN. Conversion and
  division round to nearest, ties to even (the default rounding mode): 24 significant bits,
  least normal exponent -126, overflow to infinity from \<open>2 ^ 128\<close> on.
\<close>

datatype binary32 = Finite rat | PInf | NaN

fun bit_length :: "nat \<Rightarrow> nat" where
  "bit_length n = (if n = 0 then 0 else Suc (bit_length (n div 2)))"

declare bit_length.simps [simp del]

definition pow2 :: "int \<Rightarrow> rat" where
  "pow2 e = 2 powi e"

text \<open>The binary exponent of a positive rational: \<open>pow2 e \<le> q < pow2 (e + 1)\<close>.\<close>

definition f32_exponent :: "rat \<Rightarrow> int" where
  "f32_exponent q =
     (if 1 \<le> q then int (bit_length (nat \<lfloor>q\<rfloor>)) - 1
      else - int (bit_length (nat (\<lceil>1 / q\<rceil> - 1))))"

definition round_half_even :: "rat \<Rightarrow> int" where
  "round_half_even m =
     (let n = \<lfloor>m\<rfloor>; f = m - of_int n
      in if f < 1 / 2 then n
         else if 1 / 2 < f then n + 1
         else if even n then n else n + 1)"

text \<open>The multiple of the unit in the last place for exponent \<open>e\<close> that is nearest to
  \<open>q\<close>.\<close>

definition round_to_ulp :: "rat \<Rightarrow> int \<Rightarrow> rat" where
  "round_to_ulp q e = of_int (round_half_even (q / pow2 (e - 23))) * pow2 (e - 23)"

definition f32_round :: "rat \<Rightarrow> binary32" where
  "f32_round q =
     (if q = 0 then Finite 0
      else let r = round_to_ulp q (max (f32_exponent q) (- 126))
           in if r < 2 ^ 128 then Finite r else PInf)"

fun f32_div :: "binary32 \<Rightarrow> binary32 \<Rightarrow> binary32" where
  "f32_div NaN b = NaN"
| "f32_div a NaN = NaN"
| "f32_div PInf PInf = NaN"
| "f32_div PInf (Finite b) = PInf"
| "f32_div (Finite a) PInf = Finite 0"
| "f32_div (Finite a) (Finite b) =
     (if b = 0 then (if a = 0 then NaN else PInf) else f32_round (a / b))"

fun f32_less :: "binary32 \<Rightarrow> binary32 \<Rightarrow> bool" where
  "f32_less (Finite a) (Finite b) = (a < b)"
| "f32_less (Finite a) PInf = True"
| "f32_less a b = False"

text \<open>\<open>(float) x / (float) array1_size < 1\<close>, for \<open>x\<close> of type \<open>size_t\<close> and the
  value \<open>bound\<close> that the \<open>unsigned int\<close> variable \<open>array1_size\<close> holds.\<close>

definition bounds_check :: "u64 \<Rightarrow> u32 \<Rightarrow> bool" where
  "bounds_check x bound =
     f32_less (f32_div (f32_round (of_nat (unat x))) (f32_round (of_nat (unat bound))))
       (Finite 1)"

section \<open>The victim\<close>

text \<open>
  What \<open>victim_function\<close> touches architecturally: the scalars of the check, then, when the
  check passes, one element of \<open>array1\<close>, one of \<open>array2\<close>, and \<open>temp\<close>. The function
  returns the new value of \<open>temp\<close> and the memory it read, in program order. Flushes and
  fences read no data. \<open>array2\<close> is the content of the probe array, \<open>256 * PAGESIZE\<close>
  bytes. Inside the guarded branch \<open>x\<close> is below 16, so the two list lookups are within
  the arrays.
\<close>

datatype loc = Var_x | Var_array1_size | Var_temp | Array1 nat | Array2 nat

definition victim_function :: "u8 list \<Rightarrow> u8 \<Rightarrow> u64 \<Rightarrow> u8 \<times> loc list" where
  "victim_function array2 temp x =
     (if bounds_check x array1_size
      then (temp AND array2 ! (unat (array1 ! unat x) * PAGESIZE),
            [Var_x, Var_array1_size, Array1 (unat x),
             Array2 (unat (array1 ! unat x) * PAGESIZE), Var_temp])
      else (temp, [Var_x, Var_array1_size]))"

section \<open>The byte-guessing engine\<close>

text \<open>
  The branchless choice of the offset, lines 124 to 126. \<open>i % 6\<close> is C's truncating
  remainder on \<open>int\<close>; \<open>((i % 6) - 1) & ~0xFFFF\<close> is computed on 32-bit \<open>int\<close> and
  converted to \<open>size_t\<close> with sign extension.
\<close>

definition select_x :: "int \<Rightarrow> u64 \<Rightarrow> u64 \<Rightarrow> u64" where
  "select_x i training_x malicious_x =
     (let x = (scast ((word_of_int (i smod 6 - 1) :: u32) AND NOT 0xFFFF) :: u64);
          x = x OR drop_bit 16 x
      in training_x XOR (x AND (malicious_x XOR training_x)))"

text \<open>The conditional that the comment on line 122 says the three lines replace.\<close>

definition select_x_conditional :: "int \<Rightarrow> u64 \<Rightarrow> u64 \<Rightarrow> u64" where
  "select_x_conditional i training_x malicious_x =
     (if i smod 6 \<noteq> 0 then training_x else malicious_x)"

text \<open>
  The training and attack loop, \<open>for (i = loops; i >= 0; i--)\<close>. The second component
  of the state logs the argument of every call of \<open>victim_function\<close>, in call order.
\<close>

function train_and_attack :: "u8 list \<Rightarrow> u64 \<Rightarrow> u64 \<Rightarrow> int \<Rightarrow> u8 \<times> u64 list \<Rightarrow> u8 \<times> u64 list" where
  "train_and_attack array2 training_x malicious_x i (temp, calls) =
     (if 0 \<le> i
      then let x = select_x i training_x malicious_x
           in train_and_attack array2 training_x malicious_x (i - 1)
                (fst (victim_function array2 temp x), calls @ [x])
      else (temp, calls))"
  by pat_completeness auto
termination
  by (relation "measure (\<lambda>(array2, training_x, malicious_x, i, s). nat (i + 1))") auto

declare train_and_attack.simps [simp del]

text \<open>The visiting order of the probe slots, line 139.\<close>

definition mix :: "nat \<Rightarrow> nat" where
  "mix i = (i * 167 + 13) AND 255"

text \<open>The slot visited at step \<open>unmix c\<close> is \<open>c\<close>: 23 is the inverse of 167 modulo 256.
  (Not in the source; used to state and prove what the measuring loop does.)\<close>

definition unmix :: "nat \<Rightarrow> nat" where
  "unmix c = (23 * (c + 243)) mod 256"

text \<open>
  One iteration of the measuring loop, lines 139 to 149. \<open>time2\<close> is the difference of the
  two cycle counter readings around the load (the counter belongs to the platform, so the
  measurement is a parameter). \<open>CACHE_HIT_THRESHOLD\<close> is an \<open>int\<close>, converted to
  \<open>uint64_t\<close> for the comparison with \<open>time2\<close>.
\<close>

definition measure_step ::
  "u8 list \<Rightarrow> int \<Rightarrow> (nat \<Rightarrow> u64) \<Rightarrow> u64 \<Rightarrow> nat \<Rightarrow> int list \<times> int \<Rightarrow> int list \<times> int" where
  "measure_step array2 CACHE_HIT_THRESHOLD time2 training_x i = (\<lambda>(results, junk).
     let mix_i = mix i;
         junk = uint (array2 ! (mix_i * PAGESIZE))
     in (if time2 i \<le> word_of_int CACHE_HIT_THRESHOLD
            \<and> int mix_i \<noteq> uint (array1 ! unat training_x)
         then results[mix_i := results ! mix_i + 1]
         else results, junk))"

definition measure_channel ::
  "u8 list \<Rightarrow> int \<Rightarrow> (nat \<Rightarrow> u64) \<Rightarrow> u64 \<Rightarrow> int list \<times> int \<Rightarrow> int list \<times> int" where
  "measure_channel array2 CACHE_HIT_THRESHOLD time2 training_x =
     fold (measure_step array2 CACHE_HIT_THRESHOLD time2 training_x) [0..<256]"

text \<open>The search for the first and second place, lines 156 to 167.\<close>

definition scan_step :: "int list \<Rightarrow> nat \<Rightarrow> int \<times> int \<Rightarrow> int \<times> int" where
  "scan_step results i = (\<lambda>(j, k).
     if j < 0 \<or> results ! i \<ge> results ! nat j then (int i, j)
     else if k < 0 \<or> results ! i \<ge> results ! nat k then (j, int i)
     else (j, k))"

definition scan :: "int list \<Rightarrow> int \<times> int" where
  "scan results = fold (scan_step results) [0..<256] (- 1, - 1)"

text \<open>
  Line 116, \<open>training_x = tries % array1_size\<close>: \<open>tries\<close> is converted to
  \<open>unsigned int\<close>, the remainder is unsigned and widened to \<open>size_t\<close>.
\<close>

definition training_offset :: "int \<Rightarrow> u64" where
  "training_offset t = ucast ((word_of_int t :: u32) mod array1_size)"

text \<open>
  The locals and statics of \<open>spectre_pht_sa_ip_read\<close>, with the global \<open>temp\<close> that the
  victim updates. \<open>tries\<close> and \<open>loops\<close> are the function's static copies of the arguments.
  \<open>rounds\<close> is not a variable of the source: it counts the rounds that have run.
\<close>

record engine =
  results :: "int list"
  tries :: int
  loops :: int
  junk :: int
  j :: int
  k :: int
  temp :: u8
  rounds :: nat

text \<open>
  One round: the body of the loop over \<open>tries\<close> up to the test on line 171. The flushes
  of the probe array change no data. The measurements of a round are indexed by the value
  of \<open>tries\<close> in that round.
\<close>

definition round_body ::
  "u8 list \<Rightarrow> int \<Rightarrow> (int \<Rightarrow> nat \<Rightarrow> u64) \<Rightarrow> u64 \<Rightarrow> engine \<Rightarrow> engine" where
  "round_body array2 CACHE_HIT_THRESHOLD rdtsc malicious_x s =
     (let training_x = training_offset (tries s);
          (tmp, calls) = train_and_attack array2 training_x malicious_x (loops s) (temp s, []);
          (res, jnk) = measure_channel array2 CACHE_HIT_THRESHOLD (rdtsc (tries s)) training_x
                         (results s, junk s);
          (j', k') = scan res
      in s\<lparr>results := res, junk := jnk, j := j', k := k', temp := tmp,
           rounds := rounds s + 1\<rparr>)"

text \<open>The test of line 171. The product is the source's \<open>int\<close> product as long as
  \<open>results[k]\<close> is below \<open>2 ^ 30\<close>, which holds in every call with \<open>tries\<close> below
  \<open>2 ^ 30\<close>; beyond that the source's product overflows.\<close>

definition clear_success :: "engine \<Rightarrow> bool" where
  "clear_success s =
     (results s ! nat (j s) \<ge> 2 * results s ! nat (k s)
      \<or> (results s ! nat (j s) = 2 \<and> results s ! nat (k s) = 0))"

text \<open>The loop \<open>for (; tries > 0; tries--)\<close> with its \<open>break\<close>.\<close>

function round_loop ::
  "u8 list \<Rightarrow> int \<Rightarrow> (int \<Rightarrow> nat \<Rightarrow> u64) \<Rightarrow> u64 \<Rightarrow> engine \<Rightarrow> engine" where
  "round_loop array2 CACHE_HIT_THRESHOLD rdtsc malicious_x s =
     (if 0 < tries s
      then let s' = round_body array2 CACHE_HIT_THRESHOLD rdtsc malicious_x s
           in if clear_success s' then s'
              else round_loop array2 CACHE_HIT_THRESHOLD rdtsc malicious_x
                     (s'\<lparr>tries := tries s' - 1\<rparr>)
      else s)"
  by pat_completeness auto
termination
  by (relation "measure (\<lambda>(array2, thr, rdtsc, malicious_x, s). nat (tries s))")
    (auto simp: round_body_def Let_def split_def)

declare round_loop.simps [simp del]

text \<open>Lines 176 to 178: the guess written through \<open>value\<close> and \<open>score\<close>.\<close>

definition store_guess :: "engine \<Rightarrow> u8 \<times> int" where
  "store_guess s =
     (let res = (results s)[0 := results s ! 0 XOR junk s]
      in (word_of_int (j s), res ! nat (j s)))"

text \<open>
  The whole function. With \<open>tries \<le> 0\<close> no round runs and line 177 reads \<open>j\<close>
  uninitialised, which is undefined behaviour: the model returns an error there. In every
  other run \<open>j\<close> and \<open>k\<close> are assigned by the first round before they are read.
\<close>

datatype error = Uninitialised_read

definition engine_init :: "arguments \<Rightarrow> u8 \<Rightarrow> engine" where
  "engine_init args tmp =
     \<lparr>results = replicate 256 0, tries = arguments.tries args, loops = arguments.loops args,
      junk = 0, j = - 1, k = - 1, temp = tmp, rounds = 0\<rparr>"

definition spectre_pht_sa_ip_read ::
  "u8 list \<Rightarrow> int \<Rightarrow> (int \<Rightarrow> nat \<Rightarrow> u64) \<Rightarrow> u8 \<Rightarrow> u64 \<Rightarrow> arguments \<Rightarrow> error + u8 \<times> int" where
  "spectre_pht_sa_ip_read array2 CACHE_HIT_THRESHOLD rdtsc tmp malicious_x args =
     (if arguments.tries args \<le> 0 then Inl Uninitialised_read
      else Inr (store_guess
             (round_loop array2 CACHE_HIT_THRESHOLD rdtsc malicious_x (engine_init args tmp))))"

text \<open>
  What holds whenever the loop over \<open>tries\<close> tests \<open>tries > 0\<close> in a call with
  \<open>args->tries = n\<close>: the scores are counts of at most the rounds run, and the rounds run
  and the tries left add up to \<open>n\<close>. (Not in the source; used to show that the scores
  stay in the range in which the \<open>int\<close> product \<open>2 * results[k]\<close> does not overflow.)
\<close>

definition run_invariant :: "int \<Rightarrow> engine \<Rightarrow> bool" where
  "run_invariant n s \<longleftrightarrow>
     length (results s) = 256
     \<and> (\<forall>c<256. 0 \<le> results s ! c \<and> results s ! c \<le> int (rounds s))
     \<and> int (rounds s) + tries s = n"

section \<open>Calibration of the threshold\<close>

text \<open>
  \<open>flush_reload_threshold\<close> of util.c. The two timing functions return an \<open>int\<close> that is
  added to a \<open>size_t\<close> accumulator; their results are parameters, one per iteration.
  \<open>gem5_is_sim\<close> reads the environment and is a parameter as well.
\<close>

definition accumulate :: "nat \<Rightarrow> (nat \<Rightarrow> int) \<Rightarrow> u64" where
  "accumulate count sample = fold (\<lambda>i acc. acc + word_of_int (sample i)) [0..<count] 0"

text \<open>The mean of one series: the sum of lines 199 to 203, divided on line 205 or 206.\<close>

definition mean_latency :: "nat \<Rightarrow> (nat \<Rightarrow> int) \<Rightarrow> u64" where
  "mean_latency count sample = accumulate count sample div of_nat count"

text \<open>Line 192: \<open>count = gem5_is_sim() ? 10 : 100000\<close>.\<close>

definition sample_count :: "int \<Rightarrow> nat" where
  "sample_count gem5_is_sim = (if gem5_is_sim \<noteq> 0 then 10 else 100000)"

definition flush_reload_threshold :: "int \<Rightarrow> (nat \<Rightarrow> int) \<Rightarrow> (nat \<Rightarrow> int) \<Rightarrow> u64" where
  "flush_reload_threshold gem5_is_sim reload_t flush_reload_t =
     (let count = sample_count gem5_is_sim;
          reload_time = mean_latency count reload_t;
          flush_reload_time = mean_latency count flush_reload_t
      in (flush_reload_time + reload_time * 2) div 3)"

section \<open>Concrete inputs\<close>

text \<open>A timing function that returns the same latency at every call.\<close>

definition constant_latency :: "int \<Rightarrow> nat \<Rightarrow> int" where
  "constant_latency c i = c"

text \<open>The probe array as \<open>main\<close> prepares it: \<open>memset(array2, 1, sizeof(array2))\<close>.\<close>

definition array2_main :: "u8 list" where
  "array2_main = replicate (256 * PAGESIZE) 1"

text \<open>A channel on which the slots of the candidates \<open>cs\<close>, and no others, are fast (10
  cycles against 1000) in every round; and a channel on which no slot is fast.\<close>

definition mock_channel :: "nat list \<Rightarrow> int \<Rightarrow> nat \<Rightarrow> u64" where
  "mock_channel cs t i = (if mix i \<in> set cs then 10 else 1000)"

definition silent_channel :: "int \<Rightarrow> nat \<Rightarrow> u64" where
  "silent_channel t i = 1000"

section \<open>The bounds check is exact\<close>

lemma bit_length_bounds:
  "0 < n \<Longrightarrow> 2 ^ (bit_length n - 1) \<le> n \<and> n < 2 ^ bit_length n"
proof (induction n rule: bit_length.induct)
  case (1 n)
  show ?case
  proof (cases "n div 2 = 0")
    case True
    with "1.prems" have n1: "n = Suc 0" by (simp add: div_eq_0_iff)
    have "bit_length (Suc 0) = Suc 0"
      by (simp add: bit_length.simps [of "Suc 0"] bit_length.simps [of 0])
    with n1 show ?thesis by simp
  next
    case False
    then have pos: "0 < n div 2" by simp
    from "1.prems" have n0: "n \<noteq> 0" by simp
    from "1.IH" [OF n0 pos]
    have lo: "2 ^ (bit_length (n div 2) - 1) \<le> n div 2"
      and hi: "n div 2 < 2 ^ bit_length (n div 2)" by simp_all
    have bl: "bit_length n = Suc (bit_length (n div 2))"
      using n0 by (simp add: bit_length.simps [of n])
    have blpos: "0 < bit_length (n div 2)"
      using pos by (simp add: bit_length.simps [of "n div 2"])
    have "2 ^ (bit_length n - 1) = 2 * 2 ^ (bit_length (n div 2) - 1)"
      using bl blpos by (cases "bit_length (n div 2)") simp_all
    also have "\<dots> \<le> 2 * (n div 2)" using lo by simp
    also have "\<dots> \<le> n" by simp
    finally have a: "2 ^ (bit_length n - 1) \<le> n" .
    have "n < 2 * (n div 2) + 2" by arith
    also have "\<dots> \<le> 2 * 2 ^ bit_length (n div 2)" using hi by simp
    finally have b: "n < 2 ^ bit_length n" by (simp add: bl)
    from a b show ?thesis by simp
  qed
qed

lemma bit_length_gt:
  assumes "2 ^ p \<le> n"
  shows "p < bit_length n"
proof -
  have "0 < n" using assms by (cases "n = 0") simp_all
  then have "n < 2 ^ bit_length n" using bit_length_bounds by simp
  with assms have "(2::nat) ^ p < 2 ^ bit_length n" by (rule le_less_trans)
  then show ?thesis by (simp add: power_strict_increasing_iff)
qed

lemma bit_length_mono:
  assumes "m \<le> n"
  shows "bit_length m \<le> bit_length n"
proof (cases "m = 0")
  case True
  then show ?thesis by (simp add: bit_length.simps [of 0])
next
  case False
  then have "2 ^ (bit_length m - 1) \<le> m" using bit_length_bounds [of m] by simp
  with assms have "2 ^ (bit_length m - 1) \<le> n" by simp
  then have "bit_length m - 1 < bit_length n" by (rule bit_length_gt)
  then show ?thesis by simp
qed

lemma pow2_pos: "0 < pow2 e"
  by (simp add: pow2_def)

lemma pow2_nat: "pow2 (int n) = 2 ^ n"
  by (simp add: pow2_def)

lemma pow2_mono: "a \<le> b \<Longrightarrow> pow2 a \<le> pow2 b"
  unfolding pow2_def by (rule power_int_increasing) simp_all

lemma pow2_split: "pow2 e = 2 ^ 23 * pow2 (e - 23)"
proof -
  have "pow2 e = 2 powi (23 + (e - 23))" by (simp add: pow2_def)
  also have "\<dots> = 2 powi 23 * 2 powi (e - 23)" by (subst power_int_add) simp_all
  finally show ?thesis by (simp add: pow2_def)
qed

lemma pow2_split_next: "pow2 (e + 1) = 2 ^ 24 * pow2 (e - 23)"
proof -
  have "e + 1 = 24 + (e - 23)" by simp
  then have "pow2 (e + 1) = 2 powi (24 + (e - 23))" by (simp only: pow2_def)
  also have "\<dots> = 2 powi 24 * 2 powi (e - 23)" by (subst power_int_add) simp_all
  finally show ?thesis by (simp add: pow2_def)
qed

lemma exponent_ge1:
  assumes "2 ^ p \<le> q"
  shows "int p \<le> f32_exponent q" "pow2 (f32_exponent q) \<le> q" "q < pow2 (f32_exponent q + 1)"
proof -
  define n where "n = nat \<lfloor>q\<rfloor>"
  have "(1::rat) \<le> 2 ^ p" by (rule one_le_power) simp
  with assms have q1: "1 \<le> q" by (rule order_trans [rotated])
  have fl: "(2::int) ^ p \<le> \<lfloor>q\<rfloor>"
    using assms by (simp add: le_floor_iff)
  then have np: "2 ^ p \<le> n"
    unfolding n_def by (simp add: le_nat_iff)
  then have npos: "0 < n" by (cases "n = 0") simp_all
  have e: "f32_exponent q = int (bit_length n) - 1"
    using q1 by (simp add: f32_exponent_def n_def)
  from bit_length_gt [OF np] show "int p \<le> f32_exponent q" by (simp add: e)
  have blpos: "0 < bit_length n" using bit_length_gt [OF np] by simp
  have "f32_exponent q = int (bit_length n - 1)" using blpos by (simp add: e)
  then have "pow2 (f32_exponent q) = 2 ^ (bit_length n - 1)" by (simp add: pow2_nat)
  also have "\<dots> \<le> of_nat n"
    using bit_length_bounds [OF npos] by (metis of_nat_le_iff of_nat_numeral of_nat_power)
  also have "\<dots> \<le> q"
    using q1 by (simp add: n_def)
  finally show "pow2 (f32_exponent q) \<le> q" .
  have "f32_exponent q + 1 = int (bit_length n)" by (simp add: e)
  then have up: "pow2 (f32_exponent q + 1) = 2 ^ bit_length n" by (simp add: pow2_nat)
  have "n < 2 ^ bit_length n" using bit_length_bounds [OF npos] by simp
  then have "int n < 2 ^ bit_length n"
    by (metis of_nat_less_iff of_nat_numeral of_nat_power)
  then have "\<lfloor>q\<rfloor> < 2 ^ bit_length n" using q1 by (simp add: n_def)
  then have "q < of_int (2 ^ bit_length n)" by (simp only: floor_less_iff)
  then show "q < pow2 (f32_exponent q + 1)" by (simp add: up)
qed

lemma exponent_mono:
  assumes "1 \<le> q1" "q1 \<le> q2"
  shows "f32_exponent q1 \<le> f32_exponent q2"
proof -
  have "nat \<lfloor>q1\<rfloor> \<le> nat \<lfloor>q2\<rfloor>" using assms(2) by (simp add: floor_mono nat_mono)
  then have "bit_length (nat \<lfloor>q1\<rfloor>) \<le> bit_length (nat \<lfloor>q2\<rfloor>)" by (rule bit_length_mono)
  then show ?thesis using assms by (simp add: f32_exponent_def)
qed

lemma round_half_even_ge_floor: "\<lfloor>m\<rfloor> \<le> round_half_even m"
  by (simp add: round_half_even_def Let_def)

lemma round_half_even_le: "round_half_even m \<le> \<lfloor>m\<rfloor> + 1"
  by (simp add: round_half_even_def Let_def)

lemma round_half_even_mono:
  assumes "m1 \<le> m2"
  shows "round_half_even m1 \<le> round_half_even m2"
proof (cases "\<lfloor>m1\<rfloor> = \<lfloor>m2\<rfloor>")
  case True
  have "m1 - of_int \<lfloor>m2\<rfloor> \<le> m2 - of_int \<lfloor>m2\<rfloor>" using assms by simp
  then show ?thesis
    unfolding round_half_even_def Let_def True by auto
next
  case False
  moreover have "\<lfloor>m1\<rfloor> \<le> \<lfloor>m2\<rfloor>" using assms by (rule floor_mono)
  ultimately have "\<lfloor>m1\<rfloor> + 1 \<le> \<lfloor>m2\<rfloor>" by simp
  with round_half_even_le [of m1] round_half_even_ge_floor [of m2] show ?thesis by linarith
qed

lemma round_to_ulp_bounds:
  assumes "pow2 e \<le> q" "q < pow2 (e + 1)"
  shows "pow2 e \<le> round_to_ulp q e" "round_to_ulp q e \<le> pow2 (e + 1)"
proof -
  define ulp where "ulp = pow2 (e - 23)"
  have ulp_pos: "0 < ulp" unfolding ulp_def by (rule pow2_pos)
  have lo: "pow2 e = 2 ^ 23 * ulp" unfolding ulp_def by (rule pow2_split)
  have hi: "pow2 (e + 1) = 2 ^ 24 * ulp" unfolding ulp_def by (rule pow2_split_next)
  from assms(1) lo have "2 ^ 23 * ulp \<le> q" by simp
  then have "2 ^ 23 \<le> q / ulp" using ulp_pos by (simp add: pos_le_divide_eq)
  then have "(2::int) ^ 23 \<le> \<lfloor>q / ulp\<rfloor>" by (simp add: le_floor_iff)
  then have "(2::int) ^ 23 \<le> round_half_even (q / ulp)"
    using round_half_even_ge_floor by (rule order_trans)
  then have "(of_int (2 ^ 23) :: rat) \<le> of_int (round_half_even (q / ulp))"
    by (simp only: of_int_le_iff)
  then have "2 ^ 23 * ulp \<le> of_int (round_half_even (q / ulp)) * ulp"
    using ulp_pos by (simp add: mult_right_mono)
  then show "pow2 e \<le> round_to_ulp q e"
    by (simp add: lo round_to_ulp_def ulp_def [symmetric])
  from assms(2) hi have "q < 2 ^ 24 * ulp" by simp
  then have "q / ulp < 2 ^ 24" using ulp_pos by (simp add: pos_divide_less_eq)
  then have "q / ulp < of_int (2 ^ 24)" by simp
  then have "\<lfloor>q / ulp\<rfloor> < 2 ^ 24" by (simp only: floor_less_iff)
  then have "\<lfloor>q / ulp\<rfloor> + 1 \<le> 2 ^ 24" by simp
  with round_half_even_le [of "q / ulp"] have "round_half_even (q / ulp) \<le> 2 ^ 24"
    by (rule order_trans)
  then have "(of_int (round_half_even (q / ulp)) :: rat) \<le> of_int (2 ^ 24)"
    by (simp only: of_int_le_iff)
  then have "of_int (round_half_even (q / ulp)) * ulp \<le> 2 ^ 24 * ulp"
    using ulp_pos by (simp add: mult_right_mono)
  then show "round_to_ulp q e \<le> pow2 (e + 1)"
    by (simp add: hi round_to_ulp_def ulp_def [symmetric])
qed

lemma round_to_ulp_mono:
  assumes "q1 \<le> q2"
  shows "round_to_ulp q1 e \<le> round_to_ulp q2 e"
proof -
  have p: "0 < pow2 (e - 23)" by (rule pow2_pos)
  then have "q1 / pow2 (e - 23) \<le> q2 / pow2 (e - 23)"
    using assms by (simp add: divide_right_mono)
  then have "round_half_even (q1 / pow2 (e - 23)) \<le> round_half_even (q2 / pow2 (e - 23))"
    by (rule round_half_even_mono)
  then have "(of_int (round_half_even (q1 / pow2 (e - 23))) :: rat)
             \<le> of_int (round_half_even (q2 / pow2 (e - 23)))"
    by (simp only: of_int_le_iff)
  then show ?thesis
    unfolding round_to_ulp_def using p by (simp add: mult_right_mono)
qed

text \<open>From 1 on, rounding is monotone, also across a change of exponent.\<close>

lemma round_exponent_mono:
  assumes "1 \<le> q1" "q1 \<le> q2"
  shows "round_to_ulp q1 (f32_exponent q1) \<le> round_to_ulp q2 (f32_exponent q2)"
proof -
  have a1: "2 ^ 0 \<le> q1" using assms(1) by simp
  have a2: "2 ^ 0 \<le> q2" using assms by simp
  note b1 = exponent_ge1 [OF a1] and b2 = exponent_ge1 [OF a2]
  have em: "f32_exponent q1 \<le> f32_exponent q2" using assms by (rule exponent_mono)
  show ?thesis
  proof (cases "f32_exponent q1 = f32_exponent q2")
    case True
    then show ?thesis using round_to_ulp_mono [OF assms(2)] by simp
  next
    case False
    with em have "f32_exponent q1 + 1 \<le> f32_exponent q2" by simp
    then have "pow2 (f32_exponent q1 + 1) \<le> pow2 (f32_exponent q2)" by (rule pow2_mono)
    moreover have "round_to_ulp q1 (f32_exponent q1) \<le> pow2 (f32_exponent q1 + 1)"
      using b1(2,3) by (rule round_to_ulp_bounds)
    moreover have "pow2 (f32_exponent q2) \<le> round_to_ulp q2 (f32_exponent q2)"
      using b2(2,3) by (rule round_to_ulp_bounds)
    ultimately show ?thesis by linarith
  qed
qed

lemma f32_round_normal:
  assumes "2 ^ p \<le> q"
  shows "f32_round q = (if round_to_ulp q (f32_exponent q) < 2 ^ 128
                        then Finite (round_to_ulp q (f32_exponent q)) else PInf)"
    and "2 ^ p \<le> round_to_ulp q (f32_exponent q)"
proof -
  have "(0::rat) < 2 ^ p" by simp
  with assms have "0 < q" by (rule less_le_trans [rotated])
  then have q0: "q \<noteq> 0" by simp
  note b = exponent_ge1 [OF assms]
  have emax: "max (f32_exponent q) (- 126) = f32_exponent q" using b(1) by simp
  show "f32_round q = (if round_to_ulp q (f32_exponent q) < 2 ^ 128
                        then Finite (round_to_ulp q (f32_exponent q)) else PInf)"
    using q0 by (simp add: f32_round_def Let_def emax)
  have "pow2 (int p) \<le> pow2 (f32_exponent q)" using b(1) by (rule pow2_mono)
  then have "2 ^ p \<le> pow2 (f32_exponent q)" by (simp add: pow2_nat)
  moreover have "pow2 (f32_exponent q) \<le> round_to_ulp q (f32_exponent q)"
    using b(2,3) by (rule round_to_ulp_bounds)
  ultimately show "2 ^ p \<le> round_to_ulp q (f32_exponent q)" by simp
qed

lemma f32_round_lower:
  assumes "2 ^ p \<le> q"
  shows "f32_round q = PInf \<or> (\<exists>r. f32_round q = Finite r \<and> 2 ^ p \<le> r)"
  using f32_round_normal [OF assms] by auto

lemma f32_round_mono:
  assumes "1 \<le> q1" "q1 \<le> q2" "f32_round q2 = Finite r2"
  shows "\<exists>r1. f32_round q1 = Finite r1 \<and> 1 \<le> r1 \<and> r1 \<le> r2"
proof -
  have a1: "2 ^ 0 \<le> q1" using assms(1) by simp
  have a2: "2 ^ 0 \<le> q2" using assms(1,2) by simp
  note n1 = f32_round_normal [OF a1] and n2 = f32_round_normal [OF a2]
  from n2(1) assms(3) have r2: "round_to_ulp q2 (f32_exponent q2) < 2 ^ 128"
    "r2 = round_to_ulp q2 (f32_exponent q2)"
    by (auto split: if_splits)
  have m: "round_to_ulp q1 (f32_exponent q1) \<le> round_to_ulp q2 (f32_exponent q2)"
    using assms(1,2) by (rule round_exponent_mono)
  with r2(1) have "round_to_ulp q1 (f32_exponent q1) < 2 ^ 128" by simp
  with n1(1) have "f32_round q1 = Finite (round_to_ulp q1 (f32_exponent q1))" by simp
  with n1(2) m r2(2) show ?thesis by simp
qed

lemma not_less_one:
  assumes "1 \<le> q"
  shows "\<not> f32_less (f32_round q) (Finite 1)"
proof -
  have "2 ^ 0 \<le> q" using assms by simp
  from f32_round_lower [OF this] show ?thesis by auto
qed

lemma f32_guard_sound:
  assumes "q1 \<le> q2" "q1 = 0 \<or> 1 \<le> q1"
  shows "\<not> f32_less (f32_div (f32_round q2) (f32_round q1)) (Finite 1)"
proof (cases "q1 = 0")
  case True
  then have "f32_round q1 = Finite 0" by (simp add: f32_round_def)
  then show ?thesis by (cases "f32_round q2") simp_all
next
  case False
  with assms(2) have q1: "1 \<le> q1" by simp
  show ?thesis
  proof (cases "f32_round q2")
    case (Finite a)
    from f32_round_mono [OF q1 assms(1) Finite]
    obtain b where b: "f32_round q1 = Finite b" "1 \<le> b" "b \<le> a" by blast
    then have "1 \<le> a / b" by simp
    then have "\<not> f32_less (f32_round (a / b)) (Finite 1)" by (rule not_less_one)
    then show ?thesis using b by (simp add: Finite)
  next
    case PInf
    then show ?thesis by (cases "f32_round q1") simp_all
  next
    case NaN
    then show ?thesis by simp
  qed
qed

lemma bounds_check_sound:
  assumes "bounds_check x bound"
  shows "unat x < unat bound"
proof (rule ccontr)
  assume "\<not> unat x < unat bound"
  then have le: "unat bound \<le> unat x" by simp
  have a: "(of_nat (unat bound) :: rat) \<le> of_nat (unat x)" using le by (rule of_nat_mono)
  have b: "(of_nat (unat bound) :: rat) = 0 \<or> 1 \<le> (of_nat (unat bound) :: rat)"
  proof (cases "unat bound = 0")
    case True
    then show ?thesis by simp
  next
    case False
    then have "1 \<le> unat bound" by simp
    then have "(of_nat 1 :: rat) \<le> of_nat (unat bound)" by (rule of_nat_mono)
    then show ?thesis by simp
  qed
  from f32_guard_sound [OF a b] assms show False
    unfolding bounds_check_def by simp
qed

lemma bounds_check_small:
  "list_all (\<lambda>n. bounds_check (of_nat n) array1_size) [0..<16]"
  by code_simp

lemma unat_array1_size: "unat array1_size = 16"
  by (simp add: array1_size_def)

lemma length_array1: "length array1 = 160"
  by (simp add: array1_def)

lemma bounds_check_iff: "bounds_check x array1_size \<longleftrightarrow> unat x < 16"
proof
  assume "bounds_check x array1_size"
  then show "unat x < 16" using bounds_check_sound [of x array1_size] by (simp add: unat_array1_size)
next
  assume "unat x < 16"
  then have "unat x \<in> set [0..<16]" by simp
  with bounds_check_small have "bounds_check (of_nat (unat x)) array1_size"
    unfolding list_all_iff by (rule bspec)
  then show "bounds_check x array1_size" by simp
qed

text \<open>
  Claim C1. Architecturally, the guard \<open>(float) x / (float) array1_size < 1\<close> passes
  only if \<open>x < array1_size\<close>, whatever value \<open>array1_size\<close> holds, and with the value 16
  that the program gives it the guard passes exactly when \<open>x < array1_size\<close>. Hence for every
  \<open>x\<close> no element of \<open>array1\<close> outside \<open>array1[0..array1_size)\<close> is read; for
  \<open>x < array1_size\<close> the memory read is \<open>array1[x]\<close>, the single slot
  \<open>array2[array1[x] * PAGESIZE]\<close> (inside \<open>array2\<close>) and the scalars \<open>x\<close>, \<open>array1_size\<close>
  and \<open>temp\<close>; for any other \<open>x\<close> only the two scalars of the check are read.
\<close>

theorem victim_function_reads:
  "(\<forall>bound. bounds_check x bound \<longrightarrow> unat x < unat bound)
   \<and> (bounds_check x array1_size \<longleftrightarrow> unat x < unat array1_size)
   \<and> (\<forall>i. Array1 i \<in> set (snd (victim_function array2 tmp x)) \<longrightarrow> i < unat array1_size)
   \<and> (unat x < unat array1_size \<longrightarrow>
        snd (victim_function array2 tmp x)
          = [Var_x, Var_array1_size, Array1 (unat x),
             Array2 (unat (array1 ! unat x) * PAGESIZE), Var_temp]
        \<and> unat x < length array1
        \<and> unat (array1 ! unat x) * PAGESIZE < 256 * PAGESIZE)
   \<and> (\<not> unat x < unat array1_size \<longrightarrow>
        snd (victim_function array2 tmp x) = [Var_x, Var_array1_size])"
proof -
  have s: "\<forall>bound. bounds_check x bound \<longrightarrow> unat x < unat bound"
    using bounds_check_sound by blast
  have g: "bounds_check x array1_size \<longleftrightarrow> unat x < unat array1_size"
    by (simp add: bounds_check_iff unat_array1_size)
  have b: "unat (array1 ! unat x) < 256"
    using unsigned_less [of "array1 ! unat x"] by simp
  have r: "(\<forall>i. Array1 i \<in> set (snd (victim_function array2 tmp x)) \<longrightarrow> i < unat array1_size)
   \<and> (unat x < unat array1_size \<longrightarrow>
        snd (victim_function array2 tmp x)
          = [Var_x, Var_array1_size, Array1 (unat x),
             Array2 (unat (array1 ! unat x) * PAGESIZE), Var_temp]
        \<and> unat x < length array1
        \<and> unat (array1 ! unat x) * PAGESIZE < 256 * PAGESIZE)
   \<and> (\<not> unat x < unat array1_size \<longrightarrow>
        snd (victim_function array2 tmp x) = [Var_x, Var_array1_size])"
    unfolding victim_function_def g
    using b by (auto simp: unat_array1_size length_array1 PAGESIZE_def)
  show ?thesis by (rule conjI [OF s conjI [OF g r]])
qed

theorem victim_function_reads_witness:
  "snd (victim_function array2_main 0 5)
     = [Var_x, Var_array1_size, Array1 5, Array2 1536, Var_temp]
   \<and> snd (victim_function array2_main 0 200) = [Var_x, Var_array1_size]
   \<and> bounds_check 5 array1_size \<and> \<not> bounds_check 200 array1_size"
proof -
  have a5: "array1 ! 5 = 6" by (simp add: array1_def)
  have s5: "unat (5 :: u64) < unat array1_size" by (simp add: unat_array1_size)
  have s200: "\<not> unat (200 :: u64) < unat array1_size" by (simp add: unat_array1_size)
  note w5 = victim_function_reads [of 5 array2_main 0]
  note w200 = victim_function_reads [of 200 array2_main 0]
  note in5 = w5 [THEN conjunct2, THEN conjunct2, THEN conjunct2, THEN conjunct1, THEN mp, OF s5]
  note out200 = w200 [THEN conjunct2, THEN conjunct2, THEN conjunct2, THEN conjunct2, THEN mp,
      OF s200]
  from in5 have r5: "snd (victim_function array2_main 0 5)
      = [Var_x, Var_array1_size, Array1 (unat (5 :: u64)),
         Array2 (unat (array1 ! unat (5 :: u64)) * PAGESIZE), Var_temp]"
    by (rule conjunct1)
  from out200 have r200: "snd (victim_function array2_main 0 200) = [Var_x, Var_array1_size]" .
  from w5 [THEN conjunct2, THEN conjunct1] s5 have b5: "bounds_check 5 array1_size"
    by (rule iffD2)
  from w200 [THEN conjunct2, THEN conjunct1] s200 have b200: "\<not> bounds_check 200 array1_size"
    by simp
  from r5 have "snd (victim_function array2_main 0 5)
      = [Var_x, Var_array1_size, Array1 5, Array2 1536, Var_temp]"
    by (simp add: a5 PAGESIZE_def)
  with r200 b5 b200 show ?thesis by simp
qed

section \<open>The visiting order\<close>

lemma mix_mod: "mix i = (i * 167 + 13) mod 256"
proof -
  have "(i * 167 + 13) AND 255 = take_bit 8 (i * 167 + 13)"
    by (simp add: take_bit_eq_mask mask_eq_exp_minus_1)
  then show ?thesis by (simp add: mix_def take_bit_eq_mod)
qed

lemma mod_affine_left: "((u mod m) * a + b) mod m = (u * a + b) mod (m::nat)"
  by (metis mod_add_left_eq mod_mult_left_eq)

lemma mod_affine_right: "(a * (u mod m + b)) mod m = (a * (u + b)) mod (m::nat)"
  by (metis mod_add_left_eq mod_mult_right_eq)

lemma mix_unmix:
  assumes "c < 256"
  shows "mix (unmix c) = c"
proof -
  have "mix (unmix c) = (23 * (c + 243) * 167 + 13) mod 256"
    unfolding mix_mod unmix_def by (rule mod_affine_left)
  also have "23 * (c + 243) * 167 + 13 = c + 256 * (15 * c + 3646)"
    by simp
  finally show ?thesis using assms by (simp only: mod_mult_self2 mod_less)
qed

lemma unmix_mix:
  assumes "i < 256"
  shows "unmix (mix i) = i"
proof -
  have "unmix (mix i) = (23 * ((i * 167 + 13) + 243)) mod 256"
    unfolding mix_mod unmix_def by (rule mod_affine_right)
  also have "23 * ((i * 167 + 13) + 243) = i + 256 * (15 * i + 23)"
    by simp
  finally show ?thesis using assms by (simp only: mod_mult_self2 mod_less)
qed

lemma mix_less: "mix i < 256"
  by (simp add: mix_mod)

lemma unmix_less: "unmix c < 256"
  by (simp add: unmix_def)

text \<open>
  Claim C9. The visiting order \<open>i \<mapsto> (i * 167 + 13) mod 256\<close> of the measuring loop,
  computed in the source as \<open>((i * 167) + 13) & 255\<close>, is a bijection on the 256 indices
  0 to 255: no two indices are sent to the same slot, and every slot is visited.
\<close>

theorem mix_bijection: "inj_on mix {0..<256} \<and> mix ` {0..<256} = {0..<256}"
proof -
  have "bij_betw mix {0..<256} {0..<256}"
  proof (rule bij_betw_byWitness [where f' = unmix])
    show "\<forall>a\<in>{0..<256}. unmix (mix a) = a" by (simp add: unmix_mix)
    show "\<forall>a'\<in>{0..<256}. mix (unmix a') = a'" by (simp add: mix_unmix)
    show "mix ` {0..<256} \<subseteq> {0..<256}" by (auto simp: mix_less)
    show "unmix ` {0..<256} \<subseteq> {0..<256}" by (auto simp: unmix_less)
  qed
  then show ?thesis by (simp add: bij_betw_def)
qed

section \<open>The branchless selection\<close>

lemma smod_6_nonneg: "0 \<le> i \<Longrightarrow> i smod 6 = i mod (6::int)"
  by (simp add: signed_modulo_int_def sgn_if)

lemma small_and_not_mask:
  assumes "0 \<le> r" "r < 5"
  shows "(word_of_int r :: u32) AND NOT 0xFFFF = 0"
proof -
  from assms have "r = 0 \<or> r = 1 \<or> r = 2 \<or> r = 3 \<or> r = 4" by arith
  then show ?thesis by auto
qed

lemma mask_zero:
  assumes "0 \<le> i" "i mod 6 \<noteq> 0"
  shows "(word_of_int (i smod 6 - 1) :: u32) AND NOT 0xFFFF = 0"
proof -
  have "0 \<le> i mod 6 - 1" "i mod 6 - 1 < 5" using assms(2)
    by (smt (verit) pos_mod_sign pos_mod_bound)+
  then show ?thesis
    using assms(1) small_and_not_mask [of "i mod 6 - 1"] by (simp only: smod_6_nonneg)
qed

lemma mask_ones:
  assumes "0 \<le> i" "i mod 6 = 0"
  shows "(word_of_int (i smod 6 - 1) :: u32) AND NOT 0xFFFF = 0xFFFF0000"
  using assms by (simp add: smod_6_nonneg)

lemma xor_cancel3: "t XOR m XOR t = (m :: u64)"
  by (simp add: xor.commute xor.left_commute)

lemma select_x_mod:
  assumes "0 \<le> i"
  shows "select_x i t m = (if i mod 6 = 0 then m else t)"
proof (cases "i mod 6 = 0")
  case True
  show ?thesis unfolding select_x_def Let_def mask_ones [OF assms True]
    using True by (simp add: xor_cancel3)
next
  case False
  show ?thesis unfolding select_x_def Let_def mask_zero [OF assms False]
    using False by simp
qed

text \<open>
  Claim C2. For every call index \<open>i \<ge> 0\<close> and all offsets \<open>training_x\<close> and
  \<open>malicious_x\<close>, the three bit-twiddling lines compute the same offset as the conditional
  \<open>(i % 6 != 0) ? training_x : malicious_x\<close> they replace: \<open>malicious_x\<close> exactly when
  \<open>i\<close> is a multiple of 6, and \<open>training_x\<close> otherwise.
\<close>

theorem select_x_refines_conditional:
  assumes "0 \<le> i"
  shows "select_x i training_x malicious_x = select_x_conditional i training_x malicious_x
         \<and> select_x i training_x malicious_x = (if i mod 6 = 0 then malicious_x else training_x)"
  using assms by (simp add: select_x_mod select_x_conditional_def smod_6_nonneg)

theorem select_x_refines_conditional_witness:
  "select_x 12 3 200 = select_x_conditional 12 3 200 \<and> select_x 12 3 200 = 200
   \<and> select_x 7 3 200 = select_x_conditional 7 3 200 \<and> select_x 7 3 200 = 3"
  using select_x_refines_conditional [of 12 3 200] select_x_refines_conditional [of 7 3 200]
  by (simp add: select_x_conditional_def signed_modulo_int_def)

section \<open>The search for the first and second place\<close>

text \<open>
  Claim C6. On the scores \<open>[5, 5, 0, ..., 0]\<close> (indices 0 and 1 tied at 5, the other
  254 entries zero) the single pass ends with first place \<open>j = 1\<close> and second place
  \<open>k = 0\<close>.
\<close>

theorem scan_tie: "scan ([5, 5] @ replicate 254 0) = (1, 0)"
  by code_simp

section \<open>The calibrated threshold\<close>

lemma accumulate_constant: "accumulate n (constant_latency c) = of_nat n * word_of_int c"
  unfolding accumulate_def
proof (induction n)
  case 0
  show ?case by simp
next
  case (Suc n)
  then show ?case by (simp add: constant_latency_def algebra_simps)
qed

lemma sample_count_bounds: "10 \<le> sample_count g" "sample_count g < 2 ^ 64"
  by (simp_all add: sample_count_def)

lemma unat_mean_le:
  assumes "10 \<le> count" "count < 2 ^ 64"
  shows "unat (mean_latency count sample) \<le> (2 ^ 64 - 1) div 10"
proof -
  have c: "unat (of_nat count :: u64) = count"
    using assms(2) by (simp add: unat_of_nat)
  have "unat (mean_latency count sample) = unat (accumulate count sample) div count"
    by (simp add: mean_latency_def unat_div c)
  also have "\<dots> \<le> unat (accumulate count sample) div 10"
    using assms(1) by (simp add: div_le_mono2)
  also have "\<dots> \<le> (2 ^ 64 - 1) div 10"
  proof -
    have "unat (accumulate count sample) < 2 ^ 64"
      using unsigned_less [of "accumulate count sample"] by simp
    then show ?thesis by (intro div_le_mono) simp
  qed
  finally show ?thesis .
qed

text \<open>The means are small enough for \<open>flush_reload_time + reload_time * 2\<close> not to wrap.\<close>

lemma interpolate_unat:
  fixes r f :: u64
  assumes "unat r \<le> (2 ^ 64 - 1) div 10" "unat f \<le> (2 ^ 64 - 1) div 10"
  shows "unat ((f + r * 2) div 3) = (unat f + unat r * 2) div 3"
proof -
  have r2: "unat (r * 2) = unat r * 2"
    using assms(1) by (simp add: unat_word_ariths)
  have "unat (f + r * 2) = unat f + unat r * 2"
    using assms r2 by (simp add: unat_word_ariths)
  then show ?thesis by (simp add: unat_div)
qed

lemma interpolate_bounds:
  fixes r f :: nat
  assumes "r < f"
  shows "r \<le> (f + r * 2) div 3 \<and> (f + r * 2) div 3 < f
         \<and> (r < (f + r * 2) div 3 \<longleftrightarrow> r + 3 \<le> f)"
  using assms by auto

text \<open>
  Claim C5, as stated, fails: with ten reloads of 10 cycles and ten flushed reloads of 11
  cycles (simulation mode) the hit mean 10 is below the miss mean 11, and the returned
  threshold is \<open>(11 + 20) / 3 = 10\<close>, which is not above the hit mean.
\<close>

theorem threshold_not_above_hit_mean:
  "mean_latency (sample_count 1) (constant_latency 10)
     < mean_latency (sample_count 1) (constant_latency 11)
   \<and> \<not> mean_latency (sample_count 1) (constant_latency 10)
        < flush_reload_threshold 1 (constant_latency 10) (constant_latency 11)"
  by (simp add: flush_reload_threshold_def sample_count_def mean_latency_def
      accumulate_constant)

text \<open>
  Claim C5, amended. Whenever the computed mean reload latency is strictly below the
  computed mean flush+reload latency, the value returned by \<open>flush_reload_threshold\<close>,
  \<open>(flush_reload_time + reload_time * 2) / 3\<close> in unsigned integer arithmetic, is at least
  the hit mean and strictly below the miss mean; it is strictly above the hit mean
  exactly when the miss mean exceeds the hit mean by at least 3.
\<close>

theorem threshold_between_means:
  assumes "mean_latency (sample_count gem5_is_sim) reload_t
           < mean_latency (sample_count gem5_is_sim) flush_reload_t"
  shows "mean_latency (sample_count gem5_is_sim) reload_t
           \<le> flush_reload_threshold gem5_is_sim reload_t flush_reload_t
         \<and> flush_reload_threshold gem5_is_sim reload_t flush_reload_t
           < mean_latency (sample_count gem5_is_sim) flush_reload_t
         \<and> (mean_latency (sample_count gem5_is_sim) reload_t
              < flush_reload_threshold gem5_is_sim reload_t flush_reload_t
            \<longleftrightarrow> unat (mean_latency (sample_count gem5_is_sim) reload_t) + 3
              \<le> unat (mean_latency (sample_count gem5_is_sim) flush_reload_t))"
proof -
  define r where "r = mean_latency (sample_count gem5_is_sim) reload_t"
  define f where "f = mean_latency (sample_count gem5_is_sim) flush_reload_t"
  have rb: "unat r \<le> (2 ^ 64 - 1) div 10"
    unfolding r_def by (rule unat_mean_le [OF sample_count_bounds])
  have fb: "unat f \<le> (2 ^ 64 - 1) div 10"
    unfolding f_def by (rule unat_mean_le [OF sample_count_bounds])
  have thr: "flush_reload_threshold gem5_is_sim reload_t flush_reload_t = (f + r * 2) div 3"
    by (simp add: flush_reload_threshold_def Let_def r_def f_def)
  have u: "unat ((f + r * 2) div 3) = (unat f + unat r * 2) div 3"
    by (rule interpolate_unat [OF rb fb])
  from assms have lt: "unat r < unat f"
    by (simp add: r_def f_def word_less_nat_alt)
  from interpolate_bounds [OF lt] show ?thesis
    unfolding thr r_def [symmetric] f_def [symmetric]
    by (simp add: word_less_nat_alt word_le_nat_alt u)
qed

theorem threshold_between_means_witness:
  "mean_latency (sample_count 1) (constant_latency 10)
     \<le> flush_reload_threshold 1 (constant_latency 10) (constant_latency 13)
   \<and> flush_reload_threshold 1 (constant_latency 10) (constant_latency 13)
     < mean_latency (sample_count 1) (constant_latency 13)
   \<and> mean_latency (sample_count 1) (constant_latency 10)
     < flush_reload_threshold 1 (constant_latency 10) (constant_latency 13)"
proof -
  have m10: "mean_latency (sample_count 1) (constant_latency 10) = 10"
    by (simp add: mean_latency_def sample_count_def accumulate_constant)
  have m13: "mean_latency (sample_count 1) (constant_latency 13) = 13"
    by (simp add: mean_latency_def sample_count_def accumulate_constant)
  have h: "mean_latency (sample_count 1) (constant_latency 10)
           < mean_latency (sample_count 1) (constant_latency 13)"
    by (simp add: m10 m13)
  from threshold_between_means [OF h] show ?thesis
    by (simp add: m10 m13)
qed

section \<open>The measuring loop\<close>

lemma length_measure_step:
  "length (fst (measure_step array2 thr time2 tx i st)) = length (fst st)"
  by (simp add: measure_step_def Let_def split_def)

lemma measure_fold:
  assumes "length rs = 256" "n \<le> 256"
  shows "length (fst (fold (measure_step array2 thr time2 tx) [0..<n] (rs, jk))) = 256
         \<and> (\<forall>c<256. fst (fold (measure_step array2 thr time2 tx) [0..<n] (rs, jk)) ! c
               = rs ! c + (if unmix c < n \<and> time2 (unmix c) \<le> word_of_int thr
                              \<and> int c \<noteq> uint (array1 ! unat tx) then 1 else 0))"
  using assms(2)
proof (induction n)
  case 0
  show ?case using assms(1) by simp
next
  case (Suc n)
  define st where "st = fold (measure_step array2 thr time2 tx) [0..<n] (rs, jk)"
  have n: "n < 256" using Suc.prems by simp
  from Suc.IH n have len: "length (fst st) = 256"
    and val: "\<And>c. c < 256 \<Longrightarrow> fst st ! c
               = rs ! c + (if unmix c < n \<and> time2 (unmix c) \<le> word_of_int thr
                              \<and> int c \<noteq> uint (array1 ! unat tx) then 1 else 0)"
    by (simp_all add: st_def)
  have step: "fold (measure_step array2 thr time2 tx) [0..<Suc n] (rs, jk)
              = measure_step array2 thr time2 tx n st"
    by (simp add: st_def)
  have mn: "mix n < 256" by (rule mix_less)
  have un: "unmix (mix n) = n" using n by (rule unmix_mix)
  show ?case
  proof (intro conjI allI impI)
    show "length (fst (fold (measure_step array2 thr time2 tx) [0..<Suc n] (rs, jk))) = 256"
      unfolding step by (simp add: length_measure_step len)
  next
    fix c :: nat
    assume c: "c < 256"
    show "fst (fold (measure_step array2 thr time2 tx) [0..<Suc n] (rs, jk)) ! c
          = rs ! c + (if unmix c < Suc n \<and> time2 (unmix c) \<le> word_of_int thr
                         \<and> int c \<noteq> uint (array1 ! unat tx) then 1 else 0)"
    proof (cases "c = mix n")
      case True
      then show ?thesis
        unfolding step using val [OF mn] len mn un
        by (simp add: measure_step_def Let_def split_def)
    next
      case False
      have "unmix c \<noteq> n"
      proof
        assume "unmix c = n"
        then have "mix (unmix c) = mix n" by simp
        then show False using False mix_unmix [OF c] by simp
      qed
      then have "unmix c < Suc n \<longleftrightarrow> unmix c < n" by arith
      then show ?thesis
        unfolding step using val [OF c] False
        by (simp add: measure_step_def Let_def split_def)
    qed
  qed
qed

lemma measure_channel_results:
  assumes "length rs = 256" "c < 256"
  shows "fst (measure_channel array2 thr time2 tx (rs, jk)) ! c
         = rs ! c + (if time2 (unmix c) \<le> word_of_int thr
                        \<and> int c \<noteq> uint (array1 ! unat tx) then 1 else 0)"
  using measure_fold [OF assms(1), of 256 array2 thr time2 tx jk] assms(2) unmix_less [of c]
  by (simp add: measure_channel_def)

lemma measure_channel_length:
  assumes "length rs = 256"
  shows "length (fst (measure_channel array2 thr time2 tx (rs, jk))) = 256"
  using measure_fold [OF assms, of 256 array2 thr time2 tx jk]
  by (simp add: measure_channel_def)

lemma measure_channel_junk:
  "snd (measure_channel array2 thr time2 tx st) = uint (array2 ! (mix 255 * PAGESIZE))"
proof -
  have "[0..<256] = [0..<255] @ [255]"
    using upt_Suc_append [of 0 255] by simp
  then show ?thesis
    by (simp add: measure_channel_def measure_step_def Let_def split_def)
qed

section \<open>Rounds and the loop over them\<close>

lemma results_round_body:
  "results (round_body array2 thr rdtsc mx s)
   = fst (measure_channel array2 thr (rdtsc (tries s)) (training_offset (tries s))
            (results s, junk s))"
  by (simp add: round_body_def Let_def split_def)

lemma junk_round_body:
  "junk (round_body array2 thr rdtsc mx s) = uint (array2 ! (mix 255 * PAGESIZE))"
  by (simp add: round_body_def Let_def split_def measure_channel_junk)

lemma j_round_body:
  "j (round_body array2 thr rdtsc mx s) = fst (scan (results (round_body array2 thr rdtsc mx s)))"
  by (simp add: round_body_def Let_def split_def)

lemma k_round_body:
  "k (round_body array2 thr rdtsc mx s) = snd (scan (results (round_body array2 thr rdtsc mx s)))"
  by (simp add: round_body_def Let_def split_def)

lemma tries_round_body:
  "tries (round_body array2 thr rdtsc mx s) = tries s"
  by (simp add: round_body_def Let_def split_def)

lemma tries_round_loop_le:
  "tries (round_loop array2 thr rdtsc mx s) \<le> tries s"
proof (induction array2 thr rdtsc mx s rule: round_loop.induct)
  case (1 array2 thr rdtsc mx s)
  show ?case
  proof (cases "0 < tries s")
    case False
    then show ?thesis by (simp add: round_loop.simps)
  next
    case True
    define s' where "s' = round_body array2 thr rdtsc mx s"
    show ?thesis
    proof (cases "clear_success s'")
      case True
      with \<open>0 < tries s\<close> show ?thesis
        by (simp add: round_loop.simps [of array2 thr rdtsc mx s] s'_def [symmetric] tries_round_body Let_def)
          (simp add: s'_def tries_round_body)
    next
      case False
      from "1.IH" [OF \<open>0 < tries s\<close> s'_def False]
      have "tries (round_loop array2 thr rdtsc mx (s'\<lparr>tries := tries s' - 1\<rparr>)) \<le> tries s' - 1"
        by simp
      with False \<open>0 < tries s\<close> show ?thesis
        by (simp add: round_loop.simps [of array2 thr rdtsc mx s] s'_def [symmetric] Let_def)
          (simp add: s'_def tries_round_body)
    qed
  qed
qed

lemma rounds_round_body:
  "rounds (round_body array2 thr rdtsc mx s) = rounds s + 1"
  by (simp add: round_body_def Let_def split_def)

lemma rounds_round_loop:
  "rounds (round_loop array2 thr rdtsc mx s) \<le> rounds s + nat (tries s)
   \<and> (0 < tries s \<longrightarrow> rounds s < rounds (round_loop array2 thr rdtsc mx s))"
proof (induction array2 thr rdtsc mx s rule: round_loop.induct)
  case (1 array2 thr rdtsc mx s)
  show ?case
  proof (cases "0 < tries s")
    case False
    then show ?thesis by (simp add: round_loop.simps [of array2 thr rdtsc mx s])
  next
    case True
    define s' where "s' = round_body array2 thr rdtsc mx s"
    define s'' where "s'' = s'\<lparr>tries := tries s' - 1\<rparr>"
    have r: "rounds s' = rounds s + 1" unfolding s'_def by (rule rounds_round_body)
    have t: "tries s' = tries s" unfolding s'_def by (rule tries_round_body)
    show ?thesis
    proof (cases "clear_success s'")
      case True
      with \<open>0 < tries s\<close> have "round_loop array2 thr rdtsc mx s = s'"
        by (simp add: round_loop.simps [of array2 thr rdtsc mx s] s'_def [symmetric] Let_def)
      with r \<open>0 < tries s\<close> show ?thesis by simp
    next
      case False
      with \<open>0 < tries s\<close> have l: "round_loop array2 thr rdtsc mx s = round_loop array2 thr rdtsc mx s''"
        by (simp add: round_loop.simps [of array2 thr rdtsc mx s] s'_def [symmetric] s''_def Let_def)
      from "1.IH" [OF \<open>0 < tries s\<close> s'_def False]
      have "rounds (round_loop array2 thr rdtsc mx s'') \<le> rounds s'' + nat (tries s'')"
        by (simp add: s''_def)
      moreover have "rounds s'' = rounds s + 1" "tries s'' = tries s - 1"
        using r t by (simp_all add: s''_def)
      moreover have "rounds s'' \<le> rounds (round_loop array2 thr rdtsc mx s'')"
      proof (cases "0 < tries s''")
        case True
        with "1.IH" [OF \<open>0 < tries s\<close> s'_def False] show ?thesis by (simp add: s''_def)
      next
        case False
        then show ?thesis by (simp add: round_loop.simps [of array2 thr rdtsc mx s''])
      qed
      ultimately show ?thesis unfolding l using \<open>0 < tries s\<close> by auto
    qed
  qed
qed

lemma threshold_comparison:
  assumes "0 \<le> thr" "thr < 2 ^ 31"
  shows "(t :: u64) \<le> word_of_int thr \<longleftrightarrow> uint t \<le> thr"
proof -
  have "uint (word_of_int thr :: u64) = thr"
    using assms by (simp add: uint_word_of_int take_bit_eq_mod)
  then show ?thesis by (simp add: word_le_def)
qed

text \<open>
  Claim C8. In the measuring phase of a round every slot \<open>mix i\<close> is visited once, and its
  score is incremented in that visit if and only if the measured latency is at most
  \<open>CACHE_HIT_THRESHOLD\<close> and \<open>mix i\<close> differs from \<open>array1[training_x]\<close>, the byte at the
  training offset of the round; so the score of a candidate grows by at most 1 in a round.
  The comparison is C's, on \<open>uint64_t\<close>; for a threshold that is not negative it is the
  comparison of the two numbers.
\<close>

theorem round_scores:
  assumes "length (results s) = 256"
  shows "(\<forall>i<256. results (round_body array2 CACHE_HIT_THRESHOLD rdtsc malicious_x s) ! mix i
            = results s ! mix i
              + (if rdtsc (tries s) i \<le> word_of_int CACHE_HIT_THRESHOLD
                    \<and> int (mix i) \<noteq> uint (array1 ! unat (training_offset (tries s)))
                 then 1 else 0))
         \<and> (\<forall>c<256. results (round_body array2 CACHE_HIT_THRESHOLD rdtsc malicious_x s) ! c = results s ! c
                \<or> results (round_body array2 CACHE_HIT_THRESHOLD rdtsc malicious_x s) ! c = results s ! c + 1)
         \<and> length (results (round_body array2 CACHE_HIT_THRESHOLD rdtsc malicious_x s)) = 256
         \<and> (0 \<le> CACHE_HIT_THRESHOLD \<and> CACHE_HIT_THRESHOLD < 2 ^ 31 \<longrightarrow>
              (\<forall>t. t \<le> (word_of_int CACHE_HIT_THRESHOLD :: u64) \<longleftrightarrow> uint t \<le> CACHE_HIT_THRESHOLD))"
proof (intro conjI allI impI)
  fix i :: nat
  assume i: "i < 256"
  show "results (round_body array2 CACHE_HIT_THRESHOLD rdtsc malicious_x s) ! mix i
            = results s ! mix i
              + (if rdtsc (tries s) i \<le> word_of_int CACHE_HIT_THRESHOLD
                    \<and> int (mix i) \<noteq> uint (array1 ! unat (training_offset (tries s)))
                 then 1 else 0)"
    unfolding results_round_body
    using measure_channel_results [OF assms mix_less [of i]] unmix_mix [OF i]
    by simp
next
  fix c :: nat
  assume c: "c < 256"
  show "results (round_body array2 CACHE_HIT_THRESHOLD rdtsc malicious_x s) ! c = results s ! c
        \<or> results (round_body array2 CACHE_HIT_THRESHOLD rdtsc malicious_x s) ! c = results s ! c + 1"
    unfolding results_round_body
    using measure_channel_results [OF assms c]
    by simp
next
  show "length (results (round_body array2 CACHE_HIT_THRESHOLD rdtsc malicious_x s)) = 256"
    unfolding results_round_body by (rule measure_channel_length [OF assms])
next
  fix t :: u64
  assume "0 \<le> CACHE_HIT_THRESHOLD \<and> CACHE_HIT_THRESHOLD < 2 ^ 31"
  then show "t \<le> word_of_int CACHE_HIT_THRESHOLD \<longleftrightarrow> uint t \<le> CACHE_HIT_THRESHOLD"
    using threshold_comparison by simp
qed

lemma training_offset_999: "training_offset 999 = 7"
  by (simp add: training_offset_def array1_size_def)

lemma array1_7: "array1 ! 7 = 8"
  by (simp add: array1_def)

lemma results_engine_init: "results (engine_init args tmp) = replicate 256 0"
  by (simp add: engine_init_def)

lemma tries_engine_init: "tries (engine_init args tmp) = arguments.tries args"
  by (simp add: engine_init_def)

lemma junk_engine_init: "junk (engine_init args tmp) = 0"
  by (simp add: engine_init_def)

theorem round_scores_witness:
  "results (round_body array2_main 100 (mock_channel [65]) 200 (engine_init arg_init 0)) ! 65 = 1
   \<and> results (round_body array2_main 100 (mock_channel [65]) 200 (engine_init arg_init 0)) ! 8 = 0"
proof -
  have len: "length (results (engine_init arg_init 0)) = 256"
    by (simp add: results_engine_init)
  have u65: "unmix 65 < 256" "mix (unmix 65) = 65" by (simp_all add: unmix_less mix_unmix)
  have u8: "unmix 8 < 256" "mix (unmix 8) = 8" by (simp_all add: unmix_less mix_unmix)
  from round_scores [OF len, of array2_main 100 "mock_channel [65]" 200]
  have a: "\<forall>i<256. results (round_body array2_main 100 (mock_channel [65]) 200 (engine_init arg_init 0)) ! mix i
            = results (engine_init arg_init 0) ! mix i
              + (if mock_channel [65] (tries (engine_init arg_init 0)) i \<le> word_of_int 100
                    \<and> int (mix i) \<noteq> uint (array1 ! unat (training_offset (tries (engine_init arg_init 0))))
                 then 1 else 0)"
    by blast
  from a u65(1) have "results (round_body array2_main 100 (mock_channel [65]) 200 (engine_init arg_init 0)) ! mix (unmix 65)
            = results (engine_init arg_init 0) ! mix (unmix 65)
              + (if mock_channel [65] (tries (engine_init arg_init 0)) (unmix 65) \<le> word_of_int 100
                    \<and> int (mix (unmix 65)) \<noteq> uint (array1 ! unat (training_offset (tries (engine_init arg_init 0))))
                 then 1 else 0)"
    by blast
  then have r65: "results (round_body array2_main 100 (mock_channel [65]) 200 (engine_init arg_init 0)) ! 65 = 1"
    by (simp add: u65 results_engine_init tries_engine_init arg_init_def training_offset_999
        array1_7 mock_channel_def)
  from a u8(1) have "results (round_body array2_main 100 (mock_channel [65]) 200 (engine_init arg_init 0)) ! mix (unmix 8)
            = results (engine_init arg_init 0) ! mix (unmix 8)
              + (if mock_channel [65] (tries (engine_init arg_init 0)) (unmix 8) \<le> word_of_int 100
                    \<and> int (mix (unmix 8)) \<noteq> uint (array1 ! unat (training_offset (tries (engine_init arg_init 0))))
                 then 1 else 0)"
    by blast
  then have r8: "results (round_body array2_main 100 (mock_channel [65]) 200 (engine_init arg_init 0)) ! 8 = 0"
    by (simp add: u8 results_engine_init tries_engine_init arg_init_def training_offset_999
        array1_7 mock_channel_def)
  from r65 r8 show ?thesis by simp
qed

lemma scan_zero: "scan (replicate 256 0) = (255, 254)"
  by code_simp

lemma round_loop_exit:
  assumes "0 < tries s" "clear_success (round_body array2 thr rdtsc mx s)"
  shows "round_loop array2 thr rdtsc mx s = round_body array2 thr rdtsc mx s"
  using assms by (simp add: round_loop.simps [of array2 thr rdtsc mx s] Let_def)

text \<open>
  Claim C10. If a round ends with all 256 scores equal to zero, the search sets first place
  \<open>j = 255\<close> and second place \<open>k = 254\<close>, the test \<open>results[j] >= 2 * results[k]\<close> holds
  as \<open>0 >= 0\<close>, and the loop stops after that round, one round after the state the round
  started from; the guess written is value 255 with score 0.
\<close>

theorem zero_scores_exit:
  assumes "0 < tries s"
    and "results (round_body array2 thr rdtsc mx s) = replicate 256 0"
  shows "j (round_body array2 thr rdtsc mx s) = 255
         \<and> k (round_body array2 thr rdtsc mx s) = 254
         \<and> results (round_body array2 thr rdtsc mx s) ! nat (j (round_body array2 thr rdtsc mx s))
             \<ge> 2 * results (round_body array2 thr rdtsc mx s) ! nat (k (round_body array2 thr rdtsc mx s))
         \<and> round_loop array2 thr rdtsc mx s = round_body array2 thr rdtsc mx s
         \<and> rounds (round_loop array2 thr rdtsc mx s) = rounds s + 1
         \<and> store_guess (round_loop array2 thr rdtsc mx s) = (255, 0)"
proof -
  define s' where "s' = round_body array2 thr rdtsc mx s"
  have r: "results s' = replicate 256 0" using assms(2) by (simp add: s'_def)
  have j: "j s' = 255" unfolding s'_def j_round_body using assms(2) by (simp add: scan_zero)
  have k: "k s' = 254" unfolding s'_def k_round_body using assms(2) by (simp add: scan_zero)
  have c: "clear_success s'" by (simp add: clear_success_def r j k)
  have l: "round_loop array2 thr rdtsc mx s = s'"
    unfolding s'_def using assms(1) c [unfolded s'_def] by (rule round_loop_exit)
  have g: "store_guess s' = (255, 0)"
    by (simp add: store_guess_def Let_def r j)
  have n: "rounds s' = rounds s + 1" unfolding s'_def by (rule rounds_round_body)
  show ?thesis
    unfolding s'_def [symmetric] l using j k g n by (simp add: r)
qed

lemma round_no_hit:
  assumes "length (results s) = 256"
    and "\<forall>i<256. \<not> rdtsc (tries s) i \<le> word_of_int thr"
  shows "results (round_body array2 thr rdtsc mx s) = results s"
proof (rule nth_equalityI)
  show "length (results (round_body array2 thr rdtsc mx s)) = length (results s)"
    unfolding results_round_body using measure_channel_length [OF assms(1)] assms(1) by simp
next
  fix c
  assume "c < length (results (round_body array2 thr rdtsc mx s))"
  then have c: "c < 256"
    unfolding results_round_body using measure_channel_length [OF assms(1)] by simp
  show "results (round_body array2 thr rdtsc mx s) ! c = results s ! c"
    unfolding results_round_body
    using measure_channel_results [OF assms(1) c] assms(2) unmix_less [of c] by simp
qed

theorem zero_scores_exit_witness:
  "j (round_body array2_main 100 silent_channel 200 (engine_init arg_init 0)) = 255
   \<and> k (round_body array2_main 100 silent_channel 200 (engine_init arg_init 0)) = 254
   \<and> round_loop array2_main 100 silent_channel 200 (engine_init arg_init 0)
       = round_body array2_main 100 silent_channel 200 (engine_init arg_init 0)
   \<and> rounds (round_loop array2_main 100 silent_channel 200 (engine_init arg_init 0)) = 1
   \<and> spectre_pht_sa_ip_read array2_main 100 silent_channel 0 200 arg_init = Inr (255, 0)"
proof -
  have t: "0 < tries (engine_init arg_init 0)"
    by (simp add: tries_engine_init arg_init_def)
  have "results (round_body array2_main 100 silent_channel 200 (engine_init arg_init 0))
        = results (engine_init arg_init 0)"
    by (rule round_no_hit) (simp_all add: results_engine_init silent_channel_def)
  then have r: "results (round_body array2_main 100 silent_channel 200 (engine_init arg_init 0))
                = replicate 256 0"
    by (simp add: results_engine_init)
  note w = zero_scores_exit [OF t r]
  from w have g: "store_guess (round_loop array2_main 100 silent_channel 200 (engine_init arg_init 0))
                  = (255, 0)"
    by blast
  have "0 < arguments.tries arg_init" by (simp add: arg_init_def)
  with g have "spectre_pht_sa_ip_read array2_main 100 silent_channel 0 200 arg_init = Inr (255, 0)"
    by (simp add: spectre_pht_sa_ip_read_def)
  moreover have "rounds (engine_init arg_init 0) = 0" by (simp add: engine_init_def)
  moreover from w
  have "rounds (round_loop array2_main 100 silent_channel 200 (engine_init arg_init 0))
        = rounds (engine_init arg_init 0) + 1"
    by blast
  ultimately
  have "rounds (round_loop array2_main 100 silent_channel 200 (engine_init arg_init 0)) = 1
        \<and> spectre_pht_sa_ip_read array2_main 100 silent_channel 0 200 arg_init = Inr (255, 0)"
    by simp
  with w show ?thesis by blast
qed

section \<open>Calls of the victim, and the score that is reported\<close>

lemma train_and_attack_calls:
  "length (snd (train_and_attack array2 training_x malicious_x i st))
   = length (snd st) + nat (i + 1)"
proof (induction array2 training_x malicious_x i st rule: train_and_attack.induct)
  case (1 array2 training_x malicious_x i tmp calls)
  show ?case
  proof (cases "0 \<le> i")
    case True
    with "1.IH" [OF True refl] show ?thesis
      by (simp add: train_and_attack.simps [of array2 training_x malicious_x i] Let_def nat_add_distrib)
  next
    case False
    then show ?thesis
      by (simp add: train_and_attack.simps [of array2 training_x malicious_x i])
  qed
qed

text \<open>
  Claim C4 says that a round calls \<open>victim_function\<close> exactly \<open>loops\<close> times. The loop
  \<open>for (i = loops; i >= 0; i--)\<close> runs for \<open>i = loops, ..., 0\<close>: with the default
  \<open>loops = 30\<close> the victim is called 31 times.
\<close>

theorem train_and_attack_default_calls:
  "length (snd (train_and_attack array2 training_x malicious_x (arguments.loops arg_init) (tmp, [])))
   = 31"
  by (simp add: train_and_attack_calls arg_init_def)

section \<open>The guess that is written\<close>

lemma scan_fold_range:
  assumes "0 < n"
  shows "0 \<le> fst (fold (scan_step rs) [0..<n] (- 1, - 1))
         \<and> fst (fold (scan_step rs) [0..<n] (- 1, - 1)) < int n"
  using assms
proof (induction n)
  case 0
  then show ?case by simp
next
  case (Suc n)
  show ?case
  proof (cases "n = 0")
    case True
    then show ?thesis by (simp add: scan_step_def)
  next
    case False
    define st where "st = fold (scan_step rs) [0..<n] (- 1, - 1)"
    from False Suc.IH have ih: "0 \<le> fst st" "fst st < int n" by (simp_all add: st_def)
    have step: "fold (scan_step rs) [0..<Suc n] (- 1, - 1) = scan_step rs n st"
      by (simp add: st_def)
    have "fst (scan_step rs n st) = int n \<or> fst (scan_step rs n st) = fst st"
      by (cases st) (simp add: scan_step_def)
    with ih show ?thesis unfolding step by auto
  qed
qed

lemma scan_first_range: "0 \<le> fst (scan rs) \<and> fst (scan rs) < 256"
  using scan_fold_range [of 256 rs] by (simp add: scan_def)

lemma j_round_body_range:
  "0 \<le> j (round_body array2 thr rdtsc mx s) \<and> j (round_body array2 thr rdtsc mx s) < 256"
  unfolding j_round_body by (rule scan_first_range)

lemma store_guess_score:
  assumes "0 < j s \<or> junk s = 0" "0 < length (results s)"
  shows "store_guess s = (word_of_int (j s), results s ! nat (j s))"
proof (cases "0 < j s")
  case True
  then have "nat (j s) \<noteq> 0" by simp
  then show ?thesis by (simp add: store_guess_def Let_def)
next
  case False
  with assms(1) have "junk s = 0" by simp
  then show ?thesis using assms(2) by (simp add: store_guess_def Let_def)
qed

lemma length_results_round_body:
  assumes "length (results s) = 256"
  shows "length (results (round_body array2 thr rdtsc mx s)) = 256"
  unfolding results_round_body by (rule measure_channel_length [OF assms])

lemma round_loop_guess:
  assumes "0 < tries s" "length (results s) = 256"
  shows "0 \<le> j (round_loop array2 thr rdtsc mx s)
         \<and> j (round_loop array2 thr rdtsc mx s) < 256
         \<and> length (results (round_loop array2 thr rdtsc mx s)) = 256
         \<and> 0 \<le> tries (round_loop array2 thr rdtsc mx s)"
  using assms
proof (induction array2 thr rdtsc mx s rule: round_loop.induct)
  case (1 array2 thr rdtsc mx s)
  define s' where "s' = round_body array2 thr rdtsc mx s"
  define s'' where "s'' = s'\<lparr>tries := tries s' - 1\<rparr>"
  have js: "0 \<le> j s'" "j s' < 256"
    unfolding s'_def using j_round_body_range by simp_all
  have ls: "length (results s') = 256"
    unfolding s'_def using "1.prems"(2) by (rule length_results_round_body)
  have ts: "tries s' = tries s" unfolding s'_def by (rule tries_round_body)
  show ?case
  proof (cases "clear_success s'")
    case True
    with "1.prems"(1) have "round_loop array2 thr rdtsc mx s = s'"
      by (simp add: round_loop.simps [of array2 thr rdtsc mx s] s'_def [symmetric] Let_def)
    with js ls ts "1.prems"(1) show ?thesis by simp
  next
    case False
    with "1.prems"(1) have l: "round_loop array2 thr rdtsc mx s = round_loop array2 thr rdtsc mx s''"
      by (simp add: round_loop.simps [of array2 thr rdtsc mx s] s'_def [symmetric] s''_def Let_def)
    show ?thesis
    proof (cases "0 < tries s''")
      case True
      have "length (results s'') = 256" using ls by (simp add: s''_def)
      from "1.IH" [OF "1.prems"(1) s'_def False True [unfolded s''_def] this [unfolded s''_def]]
      show ?thesis unfolding l s''_def .
    next
      case False
      then have "round_loop array2 thr rdtsc mx s'' = s''"
        by (simp add: round_loop.simps [of array2 thr rdtsc mx s''])
      moreover have "tries s'' = 0" using False ts "1.prems"(1) by (simp add: s''_def)
      ultimately show ?thesis unfolding l using js ls by (simp add: s''_def)
    qed
  qed
qed

text \<open>
  What every call with \<open>tries > 0\<close> does: the loop ends after at most \<open>tries\<close> rounds
  (the model is a total function, and \<open>tries\<close> never goes below zero), the value written
  is the first place \<open>j\<close> of the last round, between 0 and 255, and the score written is
  \<open>results[j]\<close> unless \<open>j = 0\<close> and \<open>junk\<close> is not zero.
\<close>

lemma read_writes_guess:
  assumes "0 < arguments.tries args"
  shows "spectre_pht_sa_ip_read array2 thr rdtsc tmp mx args
           = Inr (store_guess (round_loop array2 thr rdtsc mx (engine_init args tmp)))
         \<and> fst (store_guess (round_loop array2 thr rdtsc mx (engine_init args tmp)))
             = word_of_int (j (round_loop array2 thr rdtsc mx (engine_init args tmp)))
         \<and> 0 \<le> j (round_loop array2 thr rdtsc mx (engine_init args tmp))
         \<and> j (round_loop array2 thr rdtsc mx (engine_init args tmp)) < 256
         \<and> 0 \<le> tries (round_loop array2 thr rdtsc mx (engine_init args tmp))
         \<and> tries (round_loop array2 thr rdtsc mx (engine_init args tmp)) \<le> arguments.tries args
         \<and> 1 \<le> rounds (round_loop array2 thr rdtsc mx (engine_init args tmp))
         \<and> int (rounds (round_loop array2 thr rdtsc mx (engine_init args tmp)))
             \<le> arguments.tries args
         \<and> (0 < j (round_loop array2 thr rdtsc mx (engine_init args tmp))
              \<or> junk (round_loop array2 thr rdtsc mx (engine_init args tmp)) = 0 \<longrightarrow>
            snd (store_guess (round_loop array2 thr rdtsc mx (engine_init args tmp)))
              = results (round_loop array2 thr rdtsc mx (engine_init args tmp))
                ! nat (j (round_loop array2 thr rdtsc mx (engine_init args tmp))))"
proof -
  define s where "s = round_loop array2 thr rdtsc mx (engine_init args tmp)"
  have t: "0 < tries (engine_init args tmp)" using assms by (simp add: tries_engine_init)
  have l: "length (results (engine_init args tmp)) = 256" by (simp add: results_engine_init)
  from round_loop_guess [OF t l, of array2 thr rdtsc mx]
  have g: "0 \<le> j s" "j s < 256" "length (results s) = 256" "0 \<le> tries s"
    by (simp_all add: s_def)
  have le: "tries s \<le> arguments.tries args"
    unfolding s_def using tries_round_loop_le [of array2 thr rdtsc mx "engine_init args tmp"]
    by (simp add: tries_engine_init)
  have ri: "rounds (engine_init args tmp) = 0" by (simp add: engine_init_def)
  from rounds_round_loop [of array2 thr rdtsc mx "engine_init args tmp"] t
  have "rounds s \<le> nat (arguments.tries args)" "0 < rounds s"
    by (simp_all add: s_def ri tries_engine_init)
  with assms have rn: "1 \<le> rounds s" "int (rounds s) \<le> arguments.tries args"
    by simp_all
  have v: "fst (store_guess s) = word_of_int (j s)" by (simp add: store_guess_def Let_def)
  have sc: "0 < j s \<or> junk s = 0 \<longrightarrow> snd (store_guess s) = results s ! nat (j s)"
  proof
    assume "0 < j s \<or> junk s = 0"
    then have "store_guess s = (word_of_int (j s), results s ! nat (j s))"
      using g(3) by (intro store_guess_score) simp_all
    then show "snd (store_guess s) = results s ! nat (j s)" by simp
  qed
  have r: "spectre_pht_sa_ip_read array2 thr rdtsc tmp mx args = Inr (store_guess s)"
    using assms by (simp add: spectre_pht_sa_ip_read_def s_def)
  show ?thesis unfolding s_def [symmetric] using r v g le rn sc by simp
qed

section \<open>Rounds on a mock channel\<close>

lemma results_mock_round_length:
  "length (results (round_body array2 100 (mock_channel cs) mx (engine_init arg_init tmp))) = 256"
proof -
  have len: "length (results (engine_init arg_init tmp)) = 256"
    by (simp add: results_engine_init)
  show ?thesis
    unfolding results_round_body using measure_channel_length [OF len] by simp
qed

lemma mock_channel_hit: "mock_channel cs t i \<le> word_of_int 100 \<longleftrightarrow> mix i \<in> set cs"
  by (simp add: mock_channel_def)

lemma training_byte_999: "uint (array1 ! unat (training_offset 999)) = 8"
  by (simp add: training_offset_999 array1_7)

lemma results_mock_round_nth:
  assumes c: "c < 256"
  shows "results (round_body array2 100 (mock_channel cs) mx (engine_init arg_init tmp)) ! c
         = (if c \<in> set cs \<and> c \<noteq> 8 then 1 else 0)"
proof -
  have len: "length (results (engine_init arg_init tmp)) = 256"
    by (simp add: results_engine_init)
  have m: "mix (unmix c) = c" using c by (rule mix_unmix)
  have t: "tries (engine_init arg_init tmp) = 999"
    by (simp add: tries_engine_init arg_init_def)
  have z: "results (engine_init arg_init tmp) ! c = 0"
    using c by (simp add: results_engine_init)
  show ?thesis
    unfolding results_round_body measure_channel_results [OF len c] t mock_channel_hit m
      training_byte_999 z
    by simp
qed


lemma results_mock_0:
  "results (round_body array2 100 (mock_channel [0]) mx (engine_init arg_init tmp))
   = (replicate 256 0)[0 := 1]"
proof (rule nth_equalityI)
  show "length (results (round_body array2 100 (mock_channel [0]) mx (engine_init arg_init tmp)))
        = length ((replicate 256 (0::int))[0 := 1])"
    by (simp add: results_mock_round_length)
next
  fix c
  assume "c < length (results (round_body array2 100 (mock_channel [0]) mx (engine_init arg_init tmp)))"
  then have c: "c < 256" by (simp add: results_mock_round_length)
  then show "results (round_body array2 100 (mock_channel [0]) mx (engine_init arg_init tmp)) ! c
             = (replicate 256 0)[0 := 1] ! c"
    by (simp add: results_mock_round_nth [OF c] nth_list_update)
qed

lemma results_mock_65_66:
  "results (round_body array2 100 (mock_channel [65, 66]) mx (engine_init arg_init tmp))
   = (replicate 256 0)[65 := 1, 66 := 1]"
proof (rule nth_equalityI)
  show "length (results (round_body array2 100 (mock_channel [65, 66]) mx (engine_init arg_init tmp)))
        = length ((replicate 256 (0::int))[65 := 1, 66 := 1])"
    by (simp add: results_mock_round_length)
next
  fix c
  assume "c < length (results (round_body array2 100 (mock_channel [65, 66]) mx (engine_init arg_init tmp)))"
  then have c: "c < 256" by (simp add: results_mock_round_length)
  then show "results (round_body array2 100 (mock_channel [65, 66]) mx (engine_init arg_init tmp)) ! c
             = (replicate 256 0)[65 := 1, 66 := 1] ! c"
    by (auto simp add: results_mock_round_nth [OF c] nth_list_update)
qed

lemma scan_hit_0: "scan ((replicate 256 0)[0 := 1]) = (0, 255)"
  by code_simp

lemma scan_hit_65_66: "scan ((replicate 256 0)[65 := 1, 66 := 1]) = (66, 65)"
  by code_simp

lemma mix_255: "mix 255 = 102"
  by (simp add: mix_mod)


text \<open>
  Claim C3 says that the score written is the accumulated hit count of the first place.
  With the probe array filled with ones, as \<open>main\<close> leaves it, and a channel on which
  candidate 0 alone hits, the first round ends with \<open>results[0] = 1\<close> and first place
  \<open>j = 0\<close>; line 176 then replaces \<open>results[0]\<close> by \<open>results[0] ^ junk = 1 ^ 1\<close>, and the
  function reports value 0 with score 0.
\<close>

theorem score_of_candidate_zero:
  "results (round_loop array2_main 100 (mock_channel [0]) 200 (engine_init arg_init 0)) ! 0 = 1
   \<and> j (round_loop array2_main 100 (mock_channel [0]) 200 (engine_init arg_init 0)) = 0
   \<and> junk (round_loop array2_main 100 (mock_channel [0]) 200 (engine_init arg_init 0)) = 1
   \<and> spectre_pht_sa_ip_read array2_main 100 (mock_channel [0]) 0 200 arg_init = Inr (0, 0)"
proof -
  define s' where "s' = round_body array2_main 100 (mock_channel [0]) 200 (engine_init arg_init 0)"
  have r0: "results s' ! 0 = 1" unfolding s'_def by (simp add: results_mock_round_nth)
  have r255: "results s' ! 255 = 0" unfolding s'_def by (simp add: results_mock_round_nth)
  have j: "j s' = 0"
    unfolding s'_def j_round_body results_mock_0 scan_hit_0 by simp
  have k: "k s' = 255"
    unfolding s'_def k_round_body results_mock_0 scan_hit_0 by simp
  have jk: "junk s' = 1"
    unfolding s'_def junk_round_body by (simp add: mix_255 array2_main_def PAGESIZE_def)
  have c: "clear_success s'" by (simp add: clear_success_def r0 r255 j k)
  have t: "0 < tries (engine_init arg_init 0)"
    by (simp add: tries_engine_init arg_init_def)
  have l: "round_loop array2_main 100 (mock_channel [0]) 200 (engine_init arg_init 0) = s'"
    unfolding s'_def using t c [unfolded s'_def] by (rule round_loop_exit)
  have len: "length (results s') = 256" unfolding s'_def by (rule results_mock_round_length)
  have g: "store_guess s' = (0, 0)"
    by (simp add: store_guess_def Let_def r0 j jk len)
  have "0 < arguments.tries arg_init" by (simp add: arg_init_def)
  then have "spectre_pht_sa_ip_read array2_main 100 (mock_channel [0]) 0 200 arg_init = Inr (0, 0)"
    by (simp add: spectre_pht_sa_ip_read_def l g)
  then show ?thesis unfolding l by (simp add: r0 j jk)
qed

section \<open>The early exit\<close>

lemma scan_fold_second_range:
  assumes "2 \<le> n"
  shows "0 \<le> snd (fold (scan_step rs) [0..<n] (- 1, - 1))
         \<and> snd (fold (scan_step rs) [0..<n] (- 1, - 1)) < int n"
  using assms
proof (induction n)
  case 0
  then show ?case by simp
next
  case (Suc n)
  show ?case
  proof (cases "n = 1")
    case True
    have "[0..<Suc (Suc 0)] = [0, Suc 0]" by (simp add: upt_rec)
    then show ?thesis using True by (simp add: scan_step_def)
  next
    case False
    with Suc.prems have n2: "2 \<le> n" by simp
    define st where "st = fold (scan_step rs) [0..<n] (- 1, - 1)"
    from Suc.IH [OF n2] have ih: "0 \<le> snd st" "snd st < int n" by (simp_all add: st_def)
    have "0 < n" using n2 by simp
    from scan_fold_range [OF this, of rs] have fr: "0 \<le> fst st" "fst st < int n"
      by (simp_all add: st_def)
    have step: "fold (scan_step rs) [0..<Suc n] (- 1, - 1) = scan_step rs n st"
      by (simp add: st_def)
    have "snd (scan_step rs n st) = fst st \<or> snd (scan_step rs n st) = int n
          \<or> snd (scan_step rs n st) = snd st"
      by (cases st) (simp add: scan_step_def)
    with ih fr show ?thesis unfolding step by auto
  qed
qed

lemma scan_second_range: "0 \<le> snd (scan rs) \<and> snd (scan rs) < 256"
  using scan_fold_second_range [of 256 rs] by (simp add: scan_def)

lemma k_round_body_range:
  "0 \<le> k (round_body array2 thr rdtsc mx s) \<and> k (round_body array2 thr rdtsc mx s) < 256"
  unfolding k_round_body by (rule scan_second_range)

lemma round_body_score_bounds:
  assumes "length (results s) = 256" "c < 256"
  shows "results s ! c \<le> results (round_body array2 thr rdtsc mx s) ! c"
    and "results (round_body array2 thr rdtsc mx s) ! c \<le> results s ! c + 1"
  unfolding results_round_body using measure_channel_results [OF assms] by simp_all

lemma round_loop_goes_on:
  assumes "0 < tries s" "\<not> clear_success (round_body array2 thr rdtsc mx s)"
  shows "round_loop array2 thr rdtsc mx s
         = round_loop array2 thr rdtsc mx ((round_body array2 thr rdtsc mx s)\<lparr>tries := tries s - 1\<rparr>)"
  using assms
  by (simp add: round_loop.simps [of array2 thr rdtsc mx s] Let_def tries_round_body)

lemma round_loop_not_left:
  assumes "0 < tries s" "\<not> clear_success (round_body array2 thr rdtsc mx s)"
  shows "round_loop array2 thr rdtsc mx s \<noteq> round_body array2 thr rdtsc mx s"
proof
  assume e: "round_loop array2 thr rdtsc mx s = round_body array2 thr rdtsc mx s"
  have "tries (round_loop array2 thr rdtsc mx
                ((round_body array2 thr rdtsc mx s)\<lparr>tries := tries s - 1\<rparr>)) \<le> tries s - 1"
    using tries_round_loop_le
      [of array2 thr rdtsc mx "(round_body array2 thr rdtsc mx s)\<lparr>tries := tries s - 1\<rparr>"]
    by simp
  then have "tries (round_loop array2 thr rdtsc mx s) \<le> tries s - 1"
    by (simp only: round_loop_goes_on [OF assms])
  then show False by (simp add: e tries_round_body)
qed

text \<open>
  The scores stay small: the invariant holds when a call starts, every round that does
  not end the loop keeps it, and in a call with \<open>tries\<close> below \<open>2 ^ 30\<close> it bounds every
  score at the start of a round by \<open>2 ^ 30 - 2\<close>.
\<close>

lemma run_invariant_init:
  "run_invariant (arguments.tries args) (engine_init args tmp)"
  by (simp add: run_invariant_def engine_init_def)

lemma run_invariant_step:
  assumes "run_invariant n s"
  shows "run_invariant n ((round_body array2 thr rdtsc mx s)\<lparr>tries := tries s - 1\<rparr>)"
proof -
  from assms have len: "length (results s) = 256"
    and sc: "\<And>c. c < 256 \<Longrightarrow> 0 \<le> results s ! c \<and> results s ! c \<le> int (rounds s)"
    and n: "int (rounds s) + tries s = n"
    by (simp_all add: run_invariant_def)
  show ?thesis
    unfolding run_invariant_def
  proof (intro conjI allI impI)
    show "length (results ((round_body array2 thr rdtsc mx s)\<lparr>tries := tries s - 1\<rparr>)) = 256"
      by (simp add: length_results_round_body [OF len])
  next
    fix c :: nat
    assume c: "c < 256"
    from round_body_score_bounds(1) [OF len c, of array2 thr rdtsc mx] sc [OF c]
    show "0 \<le> results ((round_body array2 thr rdtsc mx s)\<lparr>tries := tries s - 1\<rparr>) ! c"
      by simp
  next
    fix c :: nat
    assume c: "c < 256"
    from round_body_score_bounds(2) [OF len c, of array2 thr rdtsc mx] sc [OF c]
    show "results ((round_body array2 thr rdtsc mx s)\<lparr>tries := tries s - 1\<rparr>) ! c
          \<le> int (rounds ((round_body array2 thr rdtsc mx s)\<lparr>tries := tries s - 1\<rparr>))"
      by (simp add: rounds_round_body)
  next
    show "int (rounds ((round_body array2 thr rdtsc mx s)\<lparr>tries := tries s - 1\<rparr>))
          + tries ((round_body array2 thr rdtsc mx s)\<lparr>tries := tries s - 1\<rparr>) = n"
      using n by (simp add: rounds_round_body)
  qed
qed

lemma run_invariant_scores:
  assumes "run_invariant n s" "0 < tries s" "n < 2 ^ 30" "c < 256"
  shows "0 \<le> results s ! c \<and> results s ! c + 1 < 2 ^ 30"
proof -
  from assms(1,4) have "0 \<le> results s ! c" "results s ! c \<le> int (rounds s)"
    and "int (rounds s) + tries s = n"
    by (simp_all add: run_invariant_def)
  with assms(2,3) show ?thesis by linarith
qed

text \<open>
  Claim C7. Let a round start with \<open>tries > 0\<close> and with scores of at most \<open>2 ^ 30 - 2\<close>
  (as in every round of a call with \<open>tries\<close> below \<open>2 ^ 30\<close>), and let \<open>j\<close> and \<open>k\<close> be
  the first and second place found in that round; both are indices of \<open>results\<close>, and
  \<open>2 * results[k]\<close> is in the range of \<open>int\<close>. The loop over \<open>tries\<close> ends in the state
  right after this round, through the \<open>break\<close> and before \<open>tries\<close> is decremented, if and
  only if \<open>results[j] >= 2 * results[k]\<close> or \<open>results[j] == 2\<close> and \<open>results[k] == 0\<close>. When
  that test fails the loop goes on: it decrements \<open>tries\<close> and behaves as the loop
  started from the state so obtained, which runs a further round if \<open>tries\<close> is still
  positive.
\<close>

theorem early_exit_iff:
  assumes "0 < tries s"
    and "length (results s) = 256"
    and "\<forall>c<256. 0 \<le> results s ! c \<and> results s ! c + 1 < 2 ^ 30"
  shows "(round_loop array2 thr rdtsc mx s = round_body array2 thr rdtsc mx s
          \<longleftrightarrow> results (round_body array2 thr rdtsc mx s) ! nat (j (round_body array2 thr rdtsc mx s))
                \<ge> 2 * results (round_body array2 thr rdtsc mx s) ! nat (k (round_body array2 thr rdtsc mx s))
              \<or> (results (round_body array2 thr rdtsc mx s) ! nat (j (round_body array2 thr rdtsc mx s)) = 2
                 \<and> results (round_body array2 thr rdtsc mx s) ! nat (k (round_body array2 thr rdtsc mx s)) = 0))
         \<and> (\<not> (results (round_body array2 thr rdtsc mx s) ! nat (j (round_body array2 thr rdtsc mx s))
                \<ge> 2 * results (round_body array2 thr rdtsc mx s) ! nat (k (round_body array2 thr rdtsc mx s))
              \<or> (results (round_body array2 thr rdtsc mx s) ! nat (j (round_body array2 thr rdtsc mx s)) = 2
                 \<and> results (round_body array2 thr rdtsc mx s) ! nat (k (round_body array2 thr rdtsc mx s)) = 0))
            \<longrightarrow> round_loop array2 thr rdtsc mx s
                = round_loop array2 thr rdtsc mx
                    ((round_body array2 thr rdtsc mx s)\<lparr>tries := tries s - 1\<rparr>))
         \<and> 0 \<le> j (round_body array2 thr rdtsc mx s) \<and> j (round_body array2 thr rdtsc mx s) < 256
         \<and> 0 \<le> k (round_body array2 thr rdtsc mx s) \<and> k (round_body array2 thr rdtsc mx s) < 256
         \<and> 0 \<le> 2 * results (round_body array2 thr rdtsc mx s) ! nat (k (round_body array2 thr rdtsc mx s))
         \<and> 2 * results (round_body array2 thr rdtsc mx s) ! nat (k (round_body array2 thr rdtsc mx s))
             < 2 ^ 31"
proof -
  define s' where "s' = round_body array2 thr rdtsc mx s"
  have jr: "0 \<le> j s'" "j s' < 256" unfolding s'_def using j_round_body_range by simp_all
  have kr: "0 \<le> k s'" "k s' < 256" unfolding s'_def using k_round_body_range by simp_all
  have kn: "nat (k s') < 256" using kr by simp
  from assms(3) kn have pre: "0 \<le> results s ! nat (k s')" "results s ! nat (k s') + 1 < 2 ^ 30"
    by simp_all
  from round_body_score_bounds [OF assms(2) kn, of array2 thr rdtsc mx]
  have post: "results s ! nat (k s') \<le> results s' ! nat (k s')"
    "results s' ! nat (k s') \<le> results s ! nat (k s') + 1"
    by (simp_all add: s'_def)
  from pre post have range: "0 \<le> 2 * results s' ! nat (k s')" "2 * results s' ! nat (k s') < 2 ^ 31"
    by simp_all
  have test: "clear_success s' \<longleftrightarrow>
      results s' ! nat (j s') \<ge> 2 * results s' ! nat (k s')
      \<or> (results s' ! nat (j s') = 2 \<and> results s' ! nat (k s') = 0)"
    by (simp add: clear_success_def)
  have exit: "clear_success s' \<Longrightarrow> round_loop array2 thr rdtsc mx s = s'"
    unfolding s'_def using assms(1) by (rule round_loop_exit)
  have on: "\<not> clear_success s' \<Longrightarrow>
      round_loop array2 thr rdtsc mx s = round_loop array2 thr rdtsc mx (s'\<lparr>tries := tries s - 1\<rparr>)"
    unfolding s'_def using assms(1) by (rule round_loop_goes_on)
  have neq: "\<not> clear_success s' \<Longrightarrow> round_loop array2 thr rdtsc mx s \<noteq> s'"
    unfolding s'_def using assms(1) by (rule round_loop_not_left)
  have iff: "round_loop array2 thr rdtsc mx s = s' \<longleftrightarrow> clear_success s'"
    using exit neq by blast
  show ?thesis
    unfolding s'_def [symmetric] test [symmetric]
    using iff on jr kr range by simp
qed

lemma engine_init_scores:
  "\<forall>c<256. 0 \<le> results (engine_init args tmp) ! c \<and> results (engine_init args tmp) ! c + 1 < 2 ^ 30"
  by (simp add: results_engine_init)

text \<open>Two first rounds of a call with the default arguments: with two candidates
  hitting, the scores tie at 1, the test fails and the loop goes on with \<open>tries = 998\<close>;
  with no hit the test holds and the loop ends.\<close>

theorem early_exit_iff_witness:
  "round_loop array2_main 100 (mock_channel [65, 66]) 200 (engine_init arg_init 0)
     = round_loop array2_main 100 (mock_channel [65, 66]) 200
         ((round_body array2_main 100 (mock_channel [65, 66]) 200 (engine_init arg_init 0))
            \<lparr>tries := 998\<rparr>)
   \<and> round_loop array2_main 100 (mock_channel [65, 66]) 200 (engine_init arg_init 0)
     \<noteq> round_body array2_main 100 (mock_channel [65, 66]) 200 (engine_init arg_init 0)
   \<and> j (round_body array2_main 100 (mock_channel [65, 66]) 200 (engine_init arg_init 0)) = 66
   \<and> k (round_body array2_main 100 (mock_channel [65, 66]) 200 (engine_init arg_init 0)) = 65
   \<and> results (round_body array2_main 100 (mock_channel [65, 66]) 200 (engine_init arg_init 0)) ! 66 = 1
   \<and> results (round_body array2_main 100 (mock_channel [65, 66]) 200 (engine_init arg_init 0)) ! 65 = 1
   \<and> round_loop array2_main 100 silent_channel 200 (engine_init arg_init 0)
     = round_body array2_main 100 silent_channel 200 (engine_init arg_init 0)"
proof -
  define s' where "s' = round_body array2_main 100 (mock_channel [65, 66]) 200 (engine_init arg_init 0)"
  define z' where "z' = round_body array2_main 100 silent_channel 200 (engine_init arg_init 0)"
  have t: "0 < tries (engine_init arg_init 0)"
    by (simp add: tries_engine_init arg_init_def)
  have t999: "tries (engine_init arg_init 0) - 1 = 998"
    by (simp add: tries_engine_init arg_init_def)
  have len: "length (results (engine_init arg_init 0)) = 256"
    by (simp add: results_engine_init)
  note w = early_exit_iff [OF t len engine_init_scores,
      of array2_main 100 "mock_channel [65, 66]" 200, folded s'_def, unfolded t999]
  note v = early_exit_iff [OF t len engine_init_scores,
      of array2_main 100 silent_channel 200, folded z'_def]
  have j: "j s' = 66"
    unfolding s'_def j_round_body results_mock_65_66 scan_hit_65_66 by simp
  have k: "k s' = 65"
    unfolding s'_def k_round_body results_mock_65_66 scan_hit_65_66 by simp
  have r66: "results s' ! 66 = 1" unfolding s'_def by (simp add: results_mock_round_nth)
  have r65: "results s' ! 65 = 1" unfolding s'_def by (simp add: results_mock_round_nth)
  have fails: "\<not> (2 * results s' ! nat (k s') \<le> results s' ! nat (j s')
                  \<or> results s' ! nat (j s') = 2 \<and> results s' ! nat (k s') = 0)"
    by (simp add: j k r65 r66)
  from w [THEN conjunct1] fails
  have neq: "round_loop array2_main 100 (mock_channel [65, 66]) 200 (engine_init arg_init 0) \<noteq> s'"
    by simp
  from w [THEN conjunct2, THEN conjunct1] fails
  have on: "round_loop array2_main 100 (mock_channel [65, 66]) 200 (engine_init arg_init 0)
            = round_loop array2_main 100 (mock_channel [65, 66]) 200 (s'\<lparr>tries := 998\<rparr>)"
    by simp
  have "results z' = results (engine_init arg_init 0)"
    unfolding z'_def by (rule round_no_hit) (simp_all add: results_engine_init silent_channel_def)
  then have rz: "results z' = replicate 256 0" by (simp add: results_engine_init)
  have jz: "j z' = 255" unfolding z'_def j_round_body rz [unfolded z'_def] by (simp add: scan_zero)
  have kz: "k z' = 254" unfolding z'_def k_round_body rz [unfolded z'_def] by (simp add: scan_zero)
  have holds: "2 * results z' ! nat (k z') \<le> results z' ! nat (j z')
               \<or> results z' ! nat (j z') = 2 \<and> results z' ! nat (k z') = 0"
    by (simp add: rz jz kz)
  from v [THEN conjunct1] holds
  have stop: "round_loop array2_main 100 silent_channel 200 (engine_init arg_init 0) = z'"
    by simp
  from on neq j k r66 r65 stop show ?thesis
    unfolding s'_def z'_def by simp
qed

end
